theory Spec2Isabelle
  imports Complex_Main "HOL-Library.Word" "HOL-Library.Sublist"
begin

section \<open>Regular expressions with submatches (the part of Go's regexp that statsdRegexp uses)\<close>

text \<open>
  Go's \<^verbatim>\<open>regexp.MustCompile\<close> gives a leftmost-first matcher: among the matches that
  start at the leftmost possible offset it returns the one a backtracking matcher finds
  first (greedy repetition and \<^verbatim>\<open>?\<close> prefer to consume, alternation prefers its left
  branch). The matcher below is that backtracking search, written with continuations.
  Strings are byte lists. Every class of statsdRegexp either names ASCII bytes or
  excludes one ASCII byte, so matching bytes and matching UTF-8 runes select the same
  substrings.
\<close>

datatype cls =
    Is char          \<comment> \<open>a literal character\<close>
  | Not char         \<comment> \<open>\<^verbatim>\<open>[^c]\<close>\<close>
  | Digit            \<comment> \<open>\<^verbatim>\<open>\d\<close>, that is \<^verbatim>\<open>[0-9]\<close>\<close>
  | OneOf string     \<comment> \<open>\<^verbatim>\<open>[...]\<close>\<close>

fun in_cls :: "cls \<Rightarrow> char \<Rightarrow> bool" where
  "in_cls (Is c) x = (x = c)"
| "in_cls (Not c) x = (x \<noteq> c)"
| "in_cls Digit x = (x \<in> set ''0123456789'')"
| "in_cls (OneOf cs) x = (x \<in> set cs)"

datatype re =
    Chr cls          \<comment> \<open>one character of a class\<close>
  | Plus cls         \<comment> \<open>greedy \<^verbatim>\<open>+\<close> on a class\<close>
  | Cat re re        \<comment> \<open>concatenation\<close>
  | Alt re re        \<comment> \<open>\<^verbatim>\<open>|\<close>, left branch first\<close>
  | Opt re           \<comment> \<open>greedy \<^verbatim>\<open>?\<close>\<close>
  | Cap nat re       \<comment> \<open>capturing group with its index\<close>

type_synonym caps = "nat \<Rightarrow> string"

text \<open>Greedy repetition of a class: take one more character first, give it back on failure.\<close>

primrec star :: "cls \<Rightarrow> string \<Rightarrow> (string \<Rightarrow> 'a option) \<Rightarrow> 'a option" where
  "star c [] k = k []"
| "star c (x # xs) k =
     (if in_cls c x
      then (case star c xs k of Some r \<Rightarrow> Some r | None \<Rightarrow> k (x # xs))
      else k (x # xs))"

primrec bt :: "re \<Rightarrow> string \<Rightarrow> caps \<Rightarrow> (string \<Rightarrow> caps \<Rightarrow> 'a option) \<Rightarrow> 'a option" where
  "bt (Chr c) = (\<lambda>s m k.
     (case s of [] \<Rightarrow> None | x # xs \<Rightarrow> if in_cls c x then k xs m else None))"
| "bt (Plus c) = (\<lambda>s m k.
     (case s of [] \<Rightarrow> None
      | x # xs \<Rightarrow> if in_cls c x then star c xs (\<lambda>s'. k s' m) else None))"
| "bt (Cat r1 r2) = (\<lambda>s m k. bt r1 s m (\<lambda>s' m'. bt r2 s' m' k))"
| "bt (Alt r1 r2) = (\<lambda>s m k.
     (case bt r1 s m k of Some r \<Rightarrow> Some r | None \<Rightarrow> bt r2 s m k))"
| "bt (Opt r) = (\<lambda>s m k.
     (case bt r s m k of Some r \<Rightarrow> Some r | None \<Rightarrow> k s m))"
| "bt (Cap n r) = (\<lambda>s m k.
     bt r s m (\<lambda>s' m'. k s' (m'(n := take (length s - length s') s))))"

text \<open>Number of capturing groups (\<^verbatim>\<open>NumSubexp\<close>).\<close>

primrec numSubexp :: "re \<Rightarrow> nat" where
  "numSubexp (Chr c) = 0"
| "numSubexp (Plus c) = 0"
| "numSubexp (Cat r1 r2) = numSubexp r1 + numSubexp r2"
| "numSubexp (Alt r1 r2) = numSubexp r1 + numSubexp r2"
| "numSubexp (Opt r) = numSubexp r"
| "numSubexp (Cap n r) = Suc (numSubexp r)"

text \<open>
  A match anchored at the start of \<open>s\<close>: the submatches, with the whole match as
  submatch 0. A group that takes no part in the match keeps the empty string.
\<close>

definition match_here :: "re \<Rightarrow> string \<Rightarrow> caps option" where
  "match_here r s =
     bt r s (\<lambda>_. []) (\<lambda>s' m. Some (m(0 := take (length s - length s') s)))"

text \<open>The unanchored search: the leftmost offset at which a match exists.\<close>

fun search :: "re \<Rightarrow> string \<Rightarrow> caps option" where
  "search r [] = match_here r []"
| "search r (x # xs) =
     (case match_here r (x # xs) of Some m \<Rightarrow> Some m | None \<Rightarrow> search r xs)"

text \<open>
  \<^verbatim>\<open>FindStringSubmatch\<close>: the list of submatches of the leftmost match, the empty
  (nil) slice when there is none.
\<close>

definition FindStringSubmatch :: "re \<Rightarrow> string \<Rightarrow> string list" where
  "FindStringSubmatch r s =
     (case search r s of None \<Rightarrow> [] | Some m \<Rightarrow> map m [0 ..< Suc (numSubexp r)])"

text \<open>
  \<^verbatim>\<open>([^.]+)\.([^:]+):([+-]?)(\d+(\.\d+)?)\|(ms|g|c)(\|@(\d+(\.\d+)?))?\<close>
\<close>

definition decimalRe :: "nat \<Rightarrow> re" where
  \<comment> \<open>\<^verbatim>\<open>\d+(\.\d+)?\<close>, the inner group having index \<open>n\<close>\<close>
  "decimalRe n = Cat (Plus Digit) (Opt (Cap n (Cat (Chr (Is CHR ''.'')) (Plus Digit))))"

definition statsdRegexp :: re where
  "statsdRegexp =
     Cat (Cap 1 (Plus (Not CHR ''.'')))
    (Cat (Chr (Is CHR ''.''))
    (Cat (Cap 2 (Plus (Not CHR '':'')))
    (Cat (Chr (Is CHR '':''))
    (Cat (Cap 3 (Opt (Chr (OneOf ''+-''))))
    (Cat (Cap 4 (decimalRe 5))
    (Cat (Chr (Is CHR ''|''))
    (Cat (Cap 6 (Alt (Cat (Chr (Is CHR ''m'')) (Chr (Is CHR ''s'')))
                (Alt (Chr (Is CHR ''g'')) (Chr (Is CHR ''c'')))))
         (Opt (Cap 7 (Cat (Chr (Is CHR ''|''))
                     (Cat (Chr (Is CHR ''@''))
                          (Cap 8 (decimalRe 9)))))))))))))"

text \<open>The part of statsdRegexp after the colon.\<close>

definition tailRe :: re where
  "tailRe =
     Cat (Cap 3 (Opt (Chr (OneOf ''+-''))))
    (Cat (Cap 4 (decimalRe 5))
    (Cat (Chr (Is CHR ''|''))
    (Cat (Cap 6 (Alt (Cat (Chr (Is CHR ''m'')) (Chr (Is CHR ''s'')))
                (Alt (Chr (Is CHR ''g'')) (Chr (Is CHR ''c'')))))
         (Opt (Cap 7 (Cat (Chr (Is CHR ''|''))
                     (Cat (Chr (Is CHR ''@''))
                          (Cap 8 (decimalRe 9)))))))))"

section \<open>float64 and the envelope\<close>

text \<open>
  Go's float64 arithmetic and \<^verbatim>\<open>strconv.ParseFloat\<close> are not part of the repository.
  They are a parameter of the model: a record of the operations the listener uses, over
  any carrier \<open>'f\<close>. \<open>ParseFloat\<close> is the value \<^verbatim>\<open>strconv.ParseFloat(s, 64)\<close> returns;
  the listener drops the error that comes with it.
\<close>

record 'f float64_ops =
  ParseFloat :: "string \<Rightarrow> 'f"
  fzero :: 'f                       \<comment> \<open>the zero value, read from a map at a missing key\<close>
  fone :: 'f                        \<comment> \<open>the constant \<^verbatim>\<open>1\<close>\<close>
  fadd :: "'f \<Rightarrow> 'f \<Rightarrow> 'f"
  fsub :: "'f \<Rightarrow> 'f \<Rightarrow> 'f"
  fdiv :: "'f \<Rightarrow> 'f \<Rightarrow> 'f"

datatype Envelope_EventType =
    Envelope_Heartbeat | Envelope_HttpStart | Envelope_HttpStop | Envelope_HttpStartStop
  | Envelope_LogMessage | Envelope_ValueMetric | Envelope_CounterEvent | Envelope_Error
  | Envelope_ContainerMetric

record 'f ValueMetric =
  Name :: string
  Value :: 'f
  Unit :: string

record 'f Envelope =
  Origin :: string
  Timestamp :: "64 word"
  EventType :: Envelope_EventType
  ValueMetric :: "'f ValueMetric"

datatype error = Errorf string

section \<open>StatsdListener\<close>

record 'f StatsdListener =
  host :: string
  gaugeValues :: "string \<rightharpoonup> 'f"
  counterValues :: "string \<rightharpoonup> 'f"

definition NewStatsdListener :: "string \<Rightarrow> 'f StatsdListener" where
  "NewStatsdListener listenerAddress =
     \<lparr>host = listenerAddress, gaugeValues = Map.empty, counterValues = Map.empty\<rparr>"

text \<open>Reading a Go map at a missing key gives the zero value.\<close>

definition index :: "'f float64_ops \<Rightarrow> (string \<rightharpoonup> 'f) \<Rightarrow> string \<Rightarrow> 'f" where
  "index F m key = (case m key of None \<Rightarrow> fzero F | Some v \<Rightarrow> v)"

definition counterValue ::
  "'f float64_ops \<Rightarrow> 'f StatsdListener \<Rightarrow> string \<Rightarrow> string \<Rightarrow> 'f \<Rightarrow> string
     \<Rightarrow> 'f \<times> 'f StatsdListener" where
  "counterValue F l origin name val incrementSign =
     (let key = origin @ ''.'' @ name;
          oldVal = index F (counterValues l) key;
          newVal = (if incrementSign = ''-'' then fsub F oldVal val
                    else fadd F oldVal val)
      in (newVal, l\<lparr>counterValues := (counterValues l)(key \<mapsto> newVal)\<rparr>))"

definition gaugeValue ::
  "'f float64_ops \<Rightarrow> 'f StatsdListener \<Rightarrow> string \<Rightarrow> string \<Rightarrow> 'f \<Rightarrow> string
     \<Rightarrow> 'f \<times> 'f StatsdListener" where
  "gaugeValue F l origin name val incrementSign =
     (let key = origin @ ''.'' @ name;
          oldVal = index F (gaugeValues l) key;
          newVal = (if incrementSign = ''+'' then fadd F oldVal val
                    else if incrementSign = ''-'' then fsub F oldVal val
                    else val)
      in (newVal, l\<lparr>gaugeValues := (gaugeValues l)(key \<mapsto> newVal)\<rparr>))"

text \<open>
  \<open>parseStat F now l data\<close>: \<open>now\<close> is what \<^verbatim>\<open>time.Now().UnixNano()\<close> returns during the
  call. The result is the envelope or the error, and the listener after the call.
\<close>

definition parseStat ::
  "'f float64_ops \<Rightarrow> 64 word \<Rightarrow> 'f StatsdListener \<Rightarrow> string
     \<Rightarrow> (error + 'f Envelope) \<times> 'f StatsdListener" where
  "parseStat F now l data =
     (let parts = FindStringSubmatch statsdRegexp data in
      if length parts = 0
      then (Inl (Errorf (''Input line '' @ [CHR 0x27] @ data @ [CHR 0x27]
                          @ '' was not a valid statsd line.'')), l)
      else
        let origin = parts ! 1;
            name = parts ! 2;
            incrementSign = parts ! 3;
            valueString = parts ! 4;
            statType = parts ! 6;
            sampleRateString = parts ! 8;
            val = ParseFloat F valueString;
            sampleRate = (if length sampleRateString \<noteq> 0
                          then ParseFloat F sampleRateString else fone F);
            val = fdiv F val sampleRate;
            (unit, val, l') =
               (if statType = ''ms'' then (''ms'', val, l)
                else if statType = ''c''
                then (let (v, l') = counterValue F l origin name val incrementSign
                      in (''counter'', v, l'))
                else (let (v, l') = gaugeValue F l origin name val incrementSign
                      in (''gauge'', v, l')))
        in (Inr \<lparr>Origin = origin, Timestamp = now, EventType = Envelope_ValueMetric,
                 ValueMetric = \<lparr>Name = name, Value = val, Unit = unit\<rparr>\<rparr>, l'))"

section \<open>The read loop of Run\<close>

text \<open>
  \<^verbatim>\<open>bufio.ScanLines\<close> as the scanner of \<open>Run\<close> applies it to one datagram: the text up
  to each newline, without one trailing carriage return; a last line without a newline
  is a line when it is not empty. A datagram is at most 65535 bytes, below the scanner's
  token limit, so the scanner never fails here.
\<close>

definition dropCR :: "string \<Rightarrow> string" where
  "dropCR data = (if data \<noteq> [] \<and> last data = CHR 0x0D then butlast data else data)"

function ScanLines :: "string \<Rightarrow> string list" where
  "ScanLines data =
     (if data = [] then []
      else (case dropWhile (\<lambda>x. x \<noteq> CHR 0x0A) data of
              [] \<Rightarrow> [dropCR data]
            | _ # rest \<Rightarrow> dropCR (takeWhile (\<lambda>x. x \<noteq> CHR 0x0A) data) # ScanLines rest))"
  by pat_completeness auto
termination
proof (relation "measure length")
  fix data :: string and x rest
  assume "dropWhile (\<lambda>x. x \<noteq> CHR 0x0A) data = x # rest"
  then have "length (x # rest) \<le> length data"
    using length_dropWhile_le [of "\<lambda>x. x \<noteq> CHR 0x0A" data] by simp
  then show "(rest, data) \<in> measure length" by simp
qed simp

text \<open>
  What \<^verbatim>\<open>connection.ReadFrom\<close> returns on one call: the payload of a datagram, or an
  error (the socket was closed).
\<close>

datatype read_result = ReadOk string | ReadErr

text \<open>
  The state of a run: the listener, the envelopes sent on \<open>outputChan\<close> so far (oldest
  first), the messages given to \<^verbatim>\<open>Warnf\<close>, the number of calls of \<^verbatim>\<open>time.Now\<close> so far,
  and whether \<open>Run\<close> has returned. \<open>Now i\<close> is the clock reading of call \<open>i\<close>.
\<close>

record 'f run_state =
  listener :: "'f StatsdListener"
  outputChan :: "'f Envelope list"
  warnings :: "string list"
  ticks :: nat
  returned :: bool

definition maxUDPsize :: nat where
  "maxUDPsize = 65535"

definition process_line ::
  "'f float64_ops \<Rightarrow> (nat \<Rightarrow> 64 word) \<Rightarrow> 'f run_state \<Rightarrow> string \<Rightarrow> 'f run_state" where
  "process_line F Now st line =
     (case parseStat F (Now (ticks st)) (listener st) line of
        (Inr envelope, l') \<Rightarrow>
          st\<lparr>listener := l', outputChan := outputChan st @ [envelope],
             ticks := Suc (ticks st)\<rparr>
      | (Inl (Errorf msg), l') \<Rightarrow>
          st\<lparr>listener := l',
             warnings := warnings st @
               [''Error parsing stat line '' @ [CHR 0x22] @ line @ [CHR 0x22] @ '': '' @ msg]\<rparr>)"

fun scan_loop ::
  "'f float64_ops \<Rightarrow> (nat \<Rightarrow> 64 word) \<Rightarrow> string list \<Rightarrow> 'f run_state \<Rightarrow> 'f run_state" where
  "scan_loop F Now [] st = st"
| "scan_loop F Now (line # rest) st = scan_loop F Now rest (process_line F Now st line)"

text \<open>
  The loop of \<open>Run\<close> over the results of its successive reads. When the reads are used
  up the loop is waiting in \<^verbatim>\<open>ReadFrom\<close>: nothing more happens.
\<close>

fun Run_loop ::
  "'f float64_ops \<Rightarrow> (nat \<Rightarrow> 64 word) \<Rightarrow> read_result list \<Rightarrow> 'f run_state \<Rightarrow> 'f run_state" where
  "Run_loop F Now [] st = st"
| "Run_loop F Now (ReadErr # rs) st = st\<lparr>returned := True\<rparr>"
| "Run_loop F Now (ReadOk payload # rs) st =
     Run_loop F Now rs (scan_loop F Now (ScanLines (take maxUDPsize payload)) st)"

text \<open>
  The lines of a sequence of datagrams in the order they arrive, and the results of
  decoding a sequence of lines one after the other (each call sees the listener the
  previous call left, and reads the clock when it succeeds).
\<close>

definition lines_of :: "string list \<Rightarrow> string list" where
  "lines_of ds = concat (map (\<lambda>d. ScanLines (take maxUDPsize d)) ds)"

fun decode_seq ::
  "'f float64_ops \<Rightarrow> (nat \<Rightarrow> 64 word) \<Rightarrow> nat \<Rightarrow> 'f StatsdListener \<Rightarrow> string list
     \<Rightarrow> (error + 'f Envelope) list" where
  "decode_seq F Now n l [] = []"
| "decode_seq F Now n l (line # rest) =
     (case parseStat F (Now n) l line of
        (Inr e, l') \<Rightarrow> Inr e # decode_seq F Now (Suc n) l' rest
      | (Inl err, l') \<Rightarrow> Inl err # decode_seq F Now n l' rest)"

text \<open>The envelopes and the errors among a sequence of results, in their order.\<close>

definition envelopes :: "(error + 'e) list \<Rightarrow> 'e list" where
  "envelopes rs = concat (map (\<lambda>r. case r of Inl _ \<Rightarrow> [] | Inr e \<Rightarrow> [e]) rs)"

definition failures :: "(error + 'e) list \<Rightarrow> error list" where
  "failures rs = concat (map (\<lambda>r. case r of Inl err \<Rightarrow> [err] | Inr _ \<Rightarrow> []) rs)"

text \<open>
  The text of a datagram: each line of \<open>ls\<close> followed by a newline, then the text \<open>t\<close>
  after the last newline. Its lines as the grammar of the protocol has them: those of
  \<open>ls\<close>, then \<open>t\<close> when it is not empty, each without one carriage return at its end.
\<close>

definition datagram :: "string list \<Rightarrow> string \<Rightarrow> string" where
  "datagram ls t = concat (map (\<lambda>l. l @ [CHR 0x0A]) ls) @ t"

definition text_lines :: "string list \<Rightarrow> string \<Rightarrow> string list" where
  "text_lines ls t =
     map (\<lambda>l. if l \<noteq> [] \<and> last l = CHR 0x0D then butlast l else l)
       (ls @ (if t = [] then [] else [t]))"

section \<open>Well-formed stat lines\<close>

text \<open>
  The grammar of one line, \<^verbatim>\<open>origin.name:[sign]value|type[|@sampleRate]\<close>: the text of
  a line from its fields, and what each field may be.
\<close>

definition stat_line ::
  "string \<Rightarrow> string \<Rightarrow> string \<Rightarrow> string \<Rightarrow> string \<Rightarrow> string option \<Rightarrow> string" where
  "stat_line origin name sign val ty rate =
     origin @ ''.'' @ name @ '':'' @ sign @ val @ ''|'' @ ty @
     (case rate of None \<Rightarrow> [] | Some r \<Rightarrow> ''|@'' @ r)"

text \<open>The sample-rate field of a line, with and without its \<^verbatim>\<open>|@\<close>.\<close>

definition rate_suffix :: "string option \<Rightarrow> string" where
  "rate_suffix rate = (case rate of None \<Rightarrow> [] | Some r \<Rightarrow> ''|@'' @ r)"

definition rate_string :: "string option \<Rightarrow> string" where
  "rate_string rate = (case rate of None \<Rightarrow> [] | Some r \<Rightarrow> r)"

definition wf_origin :: "string \<Rightarrow> bool" where
  "wf_origin origin = (origin \<noteq> [] \<and> CHR ''.'' \<notin> set origin)"

definition wf_name :: "string \<Rightarrow> bool" where
  "wf_name name = (name \<noteq> [] \<and> CHR '':'' \<notin> set name)"

definition wf_sign :: "string \<Rightarrow> bool" where
  "wf_sign sign = (sign = [] \<or> sign = ''+'' \<or> sign = ''-'')"

definition digit :: "char \<Rightarrow> bool" where
  "digit x = in_cls Digit x"

definition is_decimal :: "string \<Rightarrow> bool" where
  "is_decimal v =
     (takeWhile digit v \<noteq> [] \<and>
      (case dropWhile digit v of
         [] \<Rightarrow> True
       | x # fp \<Rightarrow> x = CHR ''.'' \<and> fp \<noteq> [] \<and> list_all digit fp))"

definition wf_rate :: "string option \<Rightarrow> bool" where
  "wf_rate rate = (case rate of None \<Rightarrow> True | Some r \<Rightarrow> is_decimal r)"

text \<open>
  A well-formed line is the text of well-formed fields with one of the three types; a
  text contains a stat when some part of it is a well-formed line.
\<close>

definition well_formed :: "string \<Rightarrow> bool" where
  "well_formed s =
     (\<exists>origin name sg v ty rate.
        wf_origin origin \<and> wf_name name \<and> wf_sign sg \<and> is_decimal v \<and>
        (ty = ''ms'' \<or> ty = ''g'' \<or> ty = ''c'') \<and> wf_rate rate \<and>
        s = stat_line origin name sg v ty rate)"

definition contains_stat :: "string \<Rightarrow> bool" where
  "contains_stat data = (\<exists>pre mid post. data = pre @ mid @ post \<and> well_formed mid)"

text \<open>The sample-rate-corrected value of a line: the value divided by the rate, by 1 without one.\<close>

definition corrected :: "'f float64_ops \<Rightarrow> string \<Rightarrow> string option \<Rightarrow> 'f" where
  "corrected F val rate =
     fdiv F (ParseFloat F val) (case rate of None \<Rightarrow> fone F | Some r \<Rightarrow> ParseFloat F r)"

section \<open>An exact instance of the float64 operations\<close>

text \<open>
  Exact rational arithmetic with the infinities and the not-a-number of IEEE 754: what
  float64 computes where no rounding and no negative zero occurs. It serves to evaluate
  the listener on concrete lines. \<open>ParseFloat\<close> reads the decimals that statsdRegexp
  lets through (\<^verbatim>\<open>\d+(\.\d+)?\<close>) and gives 0 on anything else.
\<close>

datatype xrat = Fin rat | PInf | NInf | NaN

fun xadd :: "xrat \<Rightarrow> xrat \<Rightarrow> xrat" where
  "xadd (Fin a) (Fin b) = Fin (a + b)"
| "xadd NaN _ = NaN"
| "xadd _ NaN = NaN"
| "xadd PInf NInf = NaN"
| "xadd NInf PInf = NaN"
| "xadd PInf _ = PInf"
| "xadd _ PInf = PInf"
| "xadd NInf _ = NInf"
| "xadd _ NInf = NInf"

fun xneg :: "xrat \<Rightarrow> xrat" where
  "xneg (Fin a) = Fin (- a)"
| "xneg PInf = NInf"
| "xneg NInf = PInf"
| "xneg NaN = NaN"

definition xsub :: "xrat \<Rightarrow> xrat \<Rightarrow> xrat" where
  "xsub a b = xadd a (xneg b)"

fun xdiv :: "xrat \<Rightarrow> xrat \<Rightarrow> xrat" where
  "xdiv (Fin a) (Fin b) =
     (if b = 0 then (if a = 0 then NaN else if 0 < a then PInf else NInf)
      else Fin (a / b))"
| "xdiv NaN _ = NaN"
| "xdiv _ NaN = NaN"
| "xdiv (Fin a) _ = Fin 0"
| "xdiv PInf (Fin b) = (if 0 \<le> b then PInf else NInf)"
| "xdiv NInf (Fin b) = (if 0 \<le> b then NInf else PInf)"
| "xdiv _ _ = NaN"

definition digits_value :: "string \<Rightarrow> nat" where
  "digits_value ds = foldl (\<lambda>a d. 10 * a + (of_char d - 48)) 0 ds"

definition decimal_value :: "string \<Rightarrow> rat" where
  "decimal_value v =
     (case dropWhile digit v of
        [] \<Rightarrow> of_nat (digits_value v)
      | _ # fp \<Rightarrow> of_nat (digits_value (takeWhile digit v @ fp)) / 10 ^ length fp)"

definition exact_ops :: "xrat float64_ops" where
  "exact_ops =
     \<lparr>ParseFloat = (\<lambda>s. if is_decimal s then Fin (decimal_value s) else Fin 0),
      fzero = Fin 0, fone = Fin 1, fadd = xadd, fsub = xsub, fdiv = xdiv\<rparr>"

section \<open>RelayListener\<close>

text \<open>
  Modelled from the spec: the relay listener (\<^verbatim>\<open>listener.NewWebsocket\<close> and its
  \<^verbatim>\<open>Start\<close>) is not among the sources, only its test is. The model follows section
  4.3 of the specification: after a successful dial the listener relays each frame it
  reads to the output queue; when the stop signal is triggered it closes the connection
  and returns no error; when a read fails otherwise it pushes one diagnostic frame and
  returns no error. The serialisation of the diagnostic log record is a parameter.
\<close>

datatype MessageType = OUT | ERR

record LogMessage =
  Message :: string
  MessageType :: MessageType
  SourceName :: string

datatype relay_event =
    Frame string        \<comment> \<open>a read returns a frame\<close>
  | ReadFailed          \<comment> \<open>a read fails though nobody stopped the listener\<close>
  | StopTriggered       \<comment> \<open>the caller triggers the stop signal\<close>

record relay_world =
  outputQueue :: "string list"    \<comment> \<open>frames pushed so far, oldest first\<close>
  queueClosed :: bool
  stopSignal :: bool              \<comment> \<open>whether the stop signal has been triggered\<close>
  connOpen :: bool

definition diagnostic :: LogMessage where
  "diagnostic =
     \<lparr>Message = ''proxy: error connecting to a loggregator server'',
      MessageType = ERR, SourceName = ''LGR''\<rparr>"

text \<open>
  The result of \<open>Start\<close>: \<open>None\<close> while it has not returned, \<open>Some None\<close> when it
  returned no error, \<open>Some (Some e)\<close> when it returned the error \<open>e\<close>.
\<close>

fun relay ::
  "(LogMessage \<Rightarrow> string) \<Rightarrow> relay_event list \<Rightarrow> relay_world
     \<Rightarrow> error option option \<times> relay_world" where
  "relay marshal [] w = (None, w)"
| "relay marshal (Frame b # es) w = relay marshal es (w\<lparr>outputQueue := outputQueue w @ [b]\<rparr>)"
| "relay marshal (StopTriggered # es) w =
     (Some None, w\<lparr>stopSignal := True, connOpen := False\<rparr>)"
| "relay marshal (ReadFailed # es) w =
     (Some None, w\<lparr>outputQueue := outputQueue w @ [marshal diagnostic], connOpen := False\<rparr>)"

definition Start ::
  "(LogMessage \<Rightarrow> string) \<Rightarrow> error option \<Rightarrow> relay_event list \<Rightarrow> relay_world
     \<Rightarrow> error option option \<times> relay_world" where
  "Start marshal dial es w =
     (case dial of
        Some e \<Rightarrow> (Some (Some e), w)
      | None \<Rightarrow> relay marshal es (w\<lparr>connOpen := True\<rparr>))"

section \<open>The backtracking search on statsdRegexp\<close>

text \<open>
  Each repetition of statsdRegexp is followed by something its class excludes, or by the
  end of the expression. So the greedy choice is the only one that can succeed, and the
  match at a given offset is found without backtracking.
\<close>

lemma star_skip:
  "(\<And>x xs. in_cls c x \<Longrightarrow> k (x # xs) = None) \<Longrightarrow> star c s k = k (dropWhile (in_cls c) s)"
  by (induction s) (auto split: option.splits)

lemma star_greedy:
  "k (dropWhile (in_cls c) s) = Some r \<Longrightarrow> star c s k = Some r"
  by (induction s) (simp_all split: if_splits)

lemma take_length_dropWhile:
  "take (length s - length (dropWhile P s)) s = takeWhile P s"
proof -
  have "length s = length (takeWhile P s) + length (dropWhile P s)"
    by (metis length_append takeWhile_dropWhile_id)
  then have "length s - length (dropWhile P s) = length (takeWhile P s)" by simp
  then show ?thesis
    by (metis append_eq_conv_conj takeWhile_dropWhile_id)
qed

lemma in_cls_Not: "in_cls (Not c) = (\<lambda>x. x \<noteq> c)"
  by (rule ext) simp

text \<open>A field that excludes \<open>c\<close> and the \<open>c\<close> that ends it, \<^verbatim>\<open>([^c]+)c\<close>.\<close>

lemma bt_field:
  "bt (Cat (Cap n (Plus (Not c))) (Cat (Chr (Is c)) R)) s m k =
     (case dropWhile (\<lambda>x. x \<noteq> c) s of
        [] \<Rightarrow> None
      | _ # rest \<Rightarrow>
          if takeWhile (\<lambda>x. x \<noteq> c) s = [] then None
          else bt R rest (m(n := takeWhile (\<lambda>x. x \<noteq> c) s)) k)"
proof (cases s)
  case Nil
  then show ?thesis by simp
next
  case (Cons x xs)
  show ?thesis
  proof (cases "x = c")
    case True
    with Cons show ?thesis by simp
  next
    case False
    let ?K = "\<lambda>s'. bt (Cat (Chr (Is c)) R) s' (m(n := take (length s - length s') s)) k"
    have fail: "\<And>y ys. in_cls (Not c) y \<Longrightarrow> ?K (y # ys) = None" by simp
    have "bt (Cat (Cap n (Plus (Not c))) (Cat (Chr (Is c)) R)) s m k = star (Not c) xs ?K"
      using Cons False by (simp cong: if_cong list.case_cong)
    also have "\<dots> = ?K (dropWhile (in_cls (Not c)) xs)"
      by (rule star_skip) (rule fail)
    also have "dropWhile (in_cls (Not c)) xs = dropWhile (\<lambda>x. x \<noteq> c) s"
      using Cons False by (simp add: in_cls_Not)
    finally have eq: "bt (Cat (Cap n (Plus (Not c))) (Cat (Chr (Is c)) R)) s m k =
        bt (Cat (Chr (Is c)) R) (dropWhile (\<lambda>x. x \<noteq> c) s)
           (m(n := takeWhile (\<lambda>x. x \<noteq> c) s)) k"
      by (simp only: take_length_dropWhile)
    have ne: "takeWhile (\<lambda>x. x \<noteq> c) s \<noteq> []"
      using Cons False by simp
    show ?thesis
    proof (cases "dropWhile (\<lambda>x. x \<noteq> c) s")
      case Nil
      show ?thesis unfolding eq Nil by simp
    next
      case (Cons y ys)
      then have "y = c"
        using hd_dropWhile [of "\<lambda>x. x \<noteq> c" s] by simp
      then show ?thesis unfolding eq Cons using ne by simp
    qed
  qed
qed

lemma digit_chars:
  "in_cls Digit x \<Longrightarrow> x \<noteq> CHR ''.'' \<and> x \<noteq> CHR ''|'' \<and> x \<noteq> CHR ''+'' \<and> x \<noteq> CHR ''-''"
  by auto

declare in_cls.simps(3) [simp del]

lemma bt_Plus_skip:
  assumes "\<And>x xs. in_cls c x \<Longrightarrow> K (x # xs) m = None"
  shows "bt (Plus c) s m K =
           (if takeWhile (in_cls c) s = [] then None else K (dropWhile (in_cls c) s) m)"
proof (cases s)
  case Nil
  then show ?thesis by simp
next
  case (Cons x xs)
  have "star c xs (\<lambda>s'. K s' m) = K (dropWhile (in_cls c) xs) m"
    by (rule star_skip) (rule assms)
  then show ?thesis using Cons by simp
qed

lemma bt_Plus_total:
  assumes "\<And>s. K s m \<noteq> None"
  shows "bt (Plus c) s m K =
           (if takeWhile (in_cls c) s = [] then None else K (dropWhile (in_cls c) s) m)"
proof (cases s)
  case Nil
  then show ?thesis by simp
next
  case (Cons x xs)
  obtain r where "K (dropWhile (in_cls c) xs) m = Some r"
    using assms by blast
  then have "star c xs (\<lambda>s'. K s' m) = K (dropWhile (in_cls c) xs) m"
    by (simp add: star_greedy)
  then show ?thesis using Cons by simp
qed

lemma take_Suc_dropWhile:
  "take (length (x # r2) - length (dropWhile P r2)) (x # r2) = x # takeWhile P r2"
proof -
  have "length (dropWhile P r2) \<le> length r2" by (rule length_dropWhile_le)
  then have "length (x # r2) - length (dropWhile P r2) = Suc (length r2 - length (dropWhile P r2))"
    by simp
  then show ?thesis by (simp add: take_length_dropWhile)
qed

text \<open>The fraction group, \<^verbatim>\<open>(\.\d+)\<close>, and the decimal, \<^verbatim>\<open>\d+(\.\d+)?\<close>.\<close>

lemma bt_frac_skip:
  assumes "\<And>x xs m. in_cls Digit x \<Longrightarrow> K (x # xs) m = None"
  shows "bt (Cap j (Cat (Chr (Is CHR ''.'')) (Plus Digit))) s m K =
           (case s of [] \<Rightarrow> None
            | x # r2 \<Rightarrow>
                if x = CHR ''.'' \<and> takeWhile (in_cls Digit) r2 \<noteq> []
                then K (dropWhile (in_cls Digit) r2) (m(j := x # takeWhile (in_cls Digit) r2))
                else None)"
proof (cases s)
  case Nil
  then show ?thesis by simp
next
  case (Cons x r2)
  let ?K = "\<lambda>s' m'. K s' (m'(j := take (length (x # r2) - length s') (x # r2)))"
  have "bt (Plus Digit) r2 m ?K =
          (if takeWhile (in_cls Digit) r2 = [] then None else ?K (dropWhile (in_cls Digit) r2) m)"
    by (rule bt_Plus_skip) (simp add: assms)
  then show ?thesis unfolding Cons
    by (simp add: take_Suc_dropWhile del: list.size)
qed

lemma bt_frac_total:
  assumes "\<And>s m. K s m \<noteq> None"
  shows "bt (Cap j (Cat (Chr (Is CHR ''.'')) (Plus Digit))) s m K =
           (case s of [] \<Rightarrow> None
            | x # r2 \<Rightarrow>
                if x = CHR ''.'' \<and> takeWhile (in_cls Digit) r2 \<noteq> []
                then K (dropWhile (in_cls Digit) r2) (m(j := x # takeWhile (in_cls Digit) r2))
                else None)"
proof (cases s)
  case Nil
  then show ?thesis by simp
next
  case (Cons x r2)
  let ?K = "\<lambda>s' m'. K s' (m'(j := take (length (x # r2) - length s') (x # r2)))"
  have "bt (Plus Digit) r2 m ?K =
          (if takeWhile (in_cls Digit) r2 = [] then None else ?K (dropWhile (in_cls Digit) r2) m)"
    by (rule bt_Plus_total) (simp add: assms)
  then show ?thesis unfolding Cons
    by (simp add: take_Suc_dropWhile del: list.size)
qed

lemma bt_decimal_strict:
  assumes K0: "\<forall>x xs m. in_cls Digit x \<or> x = CHR ''.'' \<longrightarrow> K (x # xs) m = None"
  shows "bt (decimalRe j) s m K =
           (if takeWhile (in_cls Digit) s = [] then None
            else (case dropWhile (in_cls Digit) s of
                    [] \<Rightarrow> K [] m
                  | x # r2 \<Rightarrow>
                      if x = CHR ''.''
                      then (if takeWhile (in_cls Digit) r2 = [] then None
                            else K (dropWhile (in_cls Digit) r2)
                                   (m(j := x # takeWhile (in_cls Digit) r2)))
                      else K (x # r2) m))"
proof -
  have K: "in_cls Digit x \<or> x = CHR ''.'' \<Longrightarrow> K (x # xs) m = None" for x xs m
    by (rule K0 [rule_format])
  let ?F = "Cap j (Cat (Chr (Is CHR ''.'')) (Plus Digit))"
  let ?Q = "\<lambda>s' m'. bt (Opt ?F) s' m' K"
  have F: "bt ?F t m' K =
           (case t of [] \<Rightarrow> None
            | x # r2 \<Rightarrow>
                if x = CHR ''.'' \<and> takeWhile (in_cls Digit) r2 \<noteq> []
                then K (dropWhile (in_cls Digit) r2) (m'(j := x # takeWhile (in_cls Digit) r2))
                else None)" for t m'
    by (rule bt_frac_skip) (simp add: K)
  have Q: "?Q t m' = (case bt ?F t m' K of Some r \<Rightarrow> Some r | None \<Rightarrow> K t m')" for t m'
    by simp
  have "bt (decimalRe j) s m K = bt (Plus Digit) s m ?Q"
    by (simp add: decimalRe_def)
  also have "\<dots> = (if takeWhile (in_cls Digit) s = [] then None
                   else ?Q (dropWhile (in_cls Digit) s) m)"
  proof (rule bt_Plus_skip)
    fix x xs assume "in_cls Digit x"
    then have "x \<noteq> CHR ''.''" and "K (x # xs) m = None"
      using digit_chars K by auto
    then show "?Q (x # xs) m = None"
      unfolding Q F by simp
  qed
  finally have E: "bt (decimalRe j) s m K =
      (if takeWhile (in_cls Digit) s = [] then None else ?Q (dropWhile (in_cls Digit) s) m)" .
  show ?thesis
  proof (cases "dropWhile (in_cls Digit) s")
    case Nil
    show ?thesis unfolding E Q F Nil by simp
  next
    case (Cons x r2)
    show ?thesis unfolding E Q F Cons by (simp add: K split: option.splits)
  qed
qed

lemma bt_decimal_total:
  assumes K0: "\<forall>s m. K s m \<noteq> None"
  shows "bt (decimalRe j) s m K =
           (if takeWhile (in_cls Digit) s = [] then None
            else (case dropWhile (in_cls Digit) s of
                    [] \<Rightarrow> K [] m
                  | x # r2 \<Rightarrow>
                      if x = CHR ''.'' \<and> takeWhile (in_cls Digit) r2 \<noteq> []
                      then K (dropWhile (in_cls Digit) r2)
                             (m(j := x # takeWhile (in_cls Digit) r2))
                      else K (x # r2) m))"
proof -
  have K: "K s m \<noteq> None" for s m
    by (rule K0 [rule_format])
  let ?F = "Cap j (Cat (Chr (Is CHR ''.'')) (Plus Digit))"
  let ?Q = "\<lambda>s' m'. bt (Opt ?F) s' m' K"
  have F: "bt ?F t m' K =
           (case t of [] \<Rightarrow> None
            | x # r2 \<Rightarrow>
                if x = CHR ''.'' \<and> takeWhile (in_cls Digit) r2 \<noteq> []
                then K (dropWhile (in_cls Digit) r2) (m'(j := x # takeWhile (in_cls Digit) r2))
                else None)" for t m'
    by (rule bt_frac_total) (rule K)
  have Q: "?Q t m' = (case bt ?F t m' K of Some r \<Rightarrow> Some r | None \<Rightarrow> K t m')" for t m'
    by simp
  have "bt (decimalRe j) s m K = bt (Plus Digit) s m ?Q"
    by (simp add: decimalRe_def)
  also have "\<dots> = (if takeWhile (in_cls Digit) s = [] then None
                   else ?Q (dropWhile (in_cls Digit) s) m)"
  proof (rule bt_Plus_total)
    fix t
    show "?Q t m \<noteq> None"
      unfolding Q using K by (simp split: option.splits)
  qed
  finally have E: "bt (decimalRe j) s m K =
      (if takeWhile (in_cls Digit) s = [] then None else ?Q (dropWhile (in_cls Digit) s) m)" .
  show ?thesis
  proof (cases "dropWhile (in_cls Digit) s")
    case Nil
    show ?thesis unfolding E Q F Nil by simp
  next
    case (Cons x r2)
    obtain r where "K (dropWhile (in_cls Digit) r2) (m(j := x # takeWhile (in_cls Digit) r2)) = Some r"
      using K by blast
    then show ?thesis unfolding E Q F Cons by auto
  qed
qed

lemma take_diff_suffix: "take (length (a @ b) - length b) (a @ b) = a"
  by simp

lemma takeWhile_all: "list_all P a \<Longrightarrow> \<not> P x \<Longrightarrow> takeWhile P (a @ x # b) = a"
  by (induction a) simp_all

lemma dropWhile_all: "list_all P a \<Longrightarrow> \<not> P x \<Longrightarrow> dropWhile P (a @ x # b) = x # b"
  by (induction a) simp_all

lemma is_decimal_cases:
  assumes "is_decimal v"
  obtains (int) "v \<noteq> []" "list_all (in_cls Digit) v"
  | (frac) ip fp where "v = ip @ CHR ''.'' # fp" "ip \<noteq> []" "list_all (in_cls Digit) ip"
      "fp \<noteq> []" "list_all (in_cls Digit) fp"
proof (cases "dropWhile digit v")
  case Nil
  then have "list_all (in_cls Digit) v"
    by (simp add: list_all_iff digit_def)
  moreover have "v \<noteq> []" using assms by (auto simp: is_decimal_def)
  ultimately show ?thesis using int by blast
next
  case (Cons x fp)
  have v: "v = takeWhile digit v @ x # fp"
    using Cons takeWhile_dropWhile_id [of digit v] by simp
  have "list_all digit (takeWhile digit v)"
    by (simp add: list_all_iff) (meson set_takeWhileD)
  then have "list_all (in_cls Digit) (takeWhile digit v)"
    by (simp add: list_all_iff digit_def)
  moreover have "x = CHR ''.''" "fp \<noteq> []" "list_all (in_cls Digit) fp" "takeWhile digit v \<noteq> []"
    using assms Cons by (auto simp: is_decimal_def digit_def list_all_iff)
  ultimately show ?thesis using v frac by blast
qed

lemma bt_decimal_start:
  "\<not> in_cls Digit x \<Longrightarrow> bt (Cat (Cap n (decimalRe j)) R) (x # xs) m k = None"
  "bt (Cat (Cap n (decimalRe j)) R) [] m k = None"
  by (simp_all add: decimalRe_def)

lemma bt_Cat_Cap:
  "bt (Cat (Cap n X) Y) s m k =
     bt X s m (\<lambda>s' m'. bt Y s' (m'(n := take (length s - length s') s)) k)"
  by simp

lemma bt_opt_chr:
  "bt (Cat (Cap n (Opt (Chr c))) R) s m k =
     (case s of
        [] \<Rightarrow> bt R [] (m(n := [])) k
      | x # xs \<Rightarrow>
          if in_cls c x
          then (case bt R xs (m(n := [x])) k of
                  Some r \<Rightarrow> Some r | None \<Rightarrow> bt R (x # xs) (m(n := [])) k)
          else bt R (x # xs) (m(n := [])) k)"
  by (cases s) (simp_all split: option.splits)

text \<open>The sign of a well-formed line.\<close>

lemma bt_sign:
  assumes "wf_sign sg" and "rest = [] \<or> in_cls Digit (hd rest)"
  shows "bt (Cat (Cap n (Opt (Chr (OneOf ''+-'')))) (Cat (Cap n' (decimalRe j)) R)) (sg @ rest) m k =
         bt (Cat (Cap n' (decimalRe j)) R) rest (m(n := sg)) k"
proof -
  let ?R = "Cat (Cap n' (decimalRe j)) R"
  have fail: "\<not> in_cls Digit x \<Longrightarrow> bt ?R (x # xs) m' k = None" for x xs m'
    by (rule bt_decimal_start)
  have nd: "\<not> in_cls Digit CHR ''+''" "\<not> in_cls Digit CHR ''-''"
    by (simp_all add: in_cls.simps(3))
  consider "sg = []" | "sg = ''+''" | "sg = ''-''"
    using assms(1) by (auto simp: wf_sign_def)
  then show ?thesis
  proof cases
    case 1
    show ?thesis
    proof (cases rest)
      case Nil
      show ?thesis unfolding bt_opt_chr 1 Nil by simp
    next
      case (Cons y ys)
      then have "\<not> in_cls (OneOf ''+-'') y"
        using assms(2) digit_chars [of y] by auto
      then show ?thesis unfolding bt_opt_chr 1 Cons by simp
    qed
  next
    case 2
    have "in_cls (OneOf ''+-'') CHR ''+''" by simp
    then show ?thesis unfolding bt_opt_chr 2
      by (simp add: fail [OF nd(1)] del: bt.simps split: option.splits)
  next
    case 3
    have "in_cls (OneOf ''+-'') CHR ''-''" by simp
    then show ?thesis unfolding bt_opt_chr 3
      by (simp add: fail [OF nd(2)] del: bt.simps split: option.splits)
  qed
qed

text \<open>The value of a well-formed line.\<close>

lemma bt_value:
  assumes "is_decimal v" and "m j = []"
  shows "bt (Cat (Cap n (decimalRe j)) (Cat (Chr (Is CHR ''|'')) R)) (v @ CHR ''|'' # rest) m k =
         bt R rest (m(j := dropWhile (in_cls Digit) v, n := v)) k"
proof -
  let ?s = "v @ CHR ''|'' # rest"
  define K where
    "K = (\<lambda>s' m'. bt (Cat (Chr (Is CHR ''|'')) R) s' (m'(n := take (length ?s - length s') ?s)) k)"
  have nd: "\<not> in_cls Digit CHR ''|''" "\<not> in_cls Digit CHR ''.''"
    by (simp_all add: in_cls.simps(3))
  have fail: "\<forall>x xs m'. in_cls Digit x \<or> x = CHR ''.'' \<longrightarrow> K (x # xs) m' = None"
  proof (intro allI impI)
    fix x xs m'
    assume "in_cls Digit x \<or> x = CHR ''.''"
    then have "x \<noteq> CHR ''|''"
      using digit_chars [of x] by auto
    then show "K (x # xs) m' = None"
      unfolding K_def by simp
  qed
  have E: "bt (Cat (Cap n (decimalRe j)) (Cat (Chr (Is CHR ''|'')) R)) ?s m k =
           bt (decimalRe j) ?s m K"
    unfolding K_def by (rule bt_Cat_Cap)
  have end_: "K (CHR ''|'' # rest) m' = bt R rest (m'(n := v)) k" for m'
  proof -
    have "take (length ?s - length (CHR ''|'' # rest)) ?s = v"
      by (rule take_diff_suffix)
    then show ?thesis unfolding K_def by simp
  qed
  note S = bt_decimal_strict [of K j ?s m, OF fail]
  from assms(1) show ?thesis
  proof (cases rule: is_decimal_cases)
    case int
    have t: "takeWhile (in_cls Digit) ?s = v" "dropWhile (in_cls Digit) ?s = CHR ''|'' # rest"
      using int nd by (simp_all add: takeWhile_all dropWhile_all)
    have d: "dropWhile (in_cls Digit) v = []"
      using int by (simp add: list_all_iff)
    have eq: "m(j := dropWhile (in_cls Digit) v) = m"
      unfolding d using assms(2) by (rule fun_upd_idem)
    have "bt (decimalRe j) ?s m K = K (CHR ''|'' # rest) m"
      unfolding S t using int(1) nd by simp
    then show ?thesis
      unfolding E eq end_ .
  next
    case (frac ip fp)
    have s: "?s = ip @ CHR ''.'' # (fp @ CHR ''|'' # rest)"
      using frac by simp
    have t: "takeWhile (in_cls Digit) ?s = ip"
        "dropWhile (in_cls Digit) ?s = CHR ''.'' # (fp @ CHR ''|'' # rest)"
      unfolding s using frac nd by (simp_all add: takeWhile_all dropWhile_all)
    have u: "takeWhile (in_cls Digit) (fp @ CHR ''|'' # rest) = fp"
        "dropWhile (in_cls Digit) (fp @ CHR ''|'' # rest) = CHR ''|'' # rest"
      using frac nd by (simp_all add: takeWhile_all dropWhile_all)
    have d: "dropWhile (in_cls Digit) v = CHR ''.'' # fp"
      using frac nd dropWhile_all [of "in_cls Digit" ip "CHR ''.''" fp] by simp
    have "bt (decimalRe j) ?s m K = K (CHR ''|'' # rest) (m(j := CHR ''.'' # fp))"
      unfolding S t using frac(2,4) by (simp add: u)
    then show ?thesis
      unfolding E d end_ .
  qed
qed

text \<open>The type.\<close>

lemma bt_type:
  "bt (Cat (Cap n (Alt (Cat (Chr (Is CHR ''m'')) (Chr (Is CHR ''s'')))
                  (Alt (Chr (Is CHR ''g'')) (Chr (Is CHR ''c''))))) R) s m k =
     (if take 2 s = ''ms'' then bt R (drop 2 s) (m(n := ''ms'')) k
      else if take 1 s = ''g'' then bt R (drop 1 s) (m(n := ''g'')) k
      else if take 1 s = ''c'' then bt R (drop 1 s) (m(n := ''c'')) k
      else None)"
proof (cases s)
  case Nil
  then show ?thesis by simp
next
  case (Cons x xs)
  show ?thesis
  proof (cases "x = CHR ''m''")
    case True
    then show ?thesis using Cons by (cases xs) (simp_all split: option.splits)
  next
    case False
    then show ?thesis using Cons by (simp split: option.splits)
  qed
qed

lemma bt_type_wf:
  assumes "ty = ''ms'' \<or> ty = ''g'' \<or> ty = ''c''"
  shows "bt (Cat (Cap n (Alt (Cat (Chr (Is CHR ''m'')) (Chr (Is CHR ''s'')))
                  (Alt (Chr (Is CHR ''g'')) (Chr (Is CHR ''c''))))) R) (ty @ rest) m k =
         bt R rest (m(n := ty)) k"
  unfolding bt_type using assms by auto

text \<open>The sample rate of a well-formed line.\<close>

lemma bt_rate:
  assumes "is_decimal r" and tot: "\<forall>s m. K s m \<noteq> None" and "m j = []"
  shows "bt (Opt (Cap n (Cat (Chr (Is CHR ''|'')) (Cat (Chr (Is CHR ''@''))
                 (Cap n' (decimalRe j)))))) (''|@'' @ r) m K =
         K [] (m(j := dropWhile (in_cls Digit) r, n' := r, n := ''|@'' @ r))"
proof -
  let ?s = "''|@'' @ r"
  define K2 where
    "K2 = (\<lambda>s' m'. K s' (m'(n' := take (length r - length s') r,
                               n := take (length ?s - length s') ?s)))"
  have K2: "\<forall>s m. K2 s m \<noteq> None"
    unfolding K2_def using tot by simp
  have end_: "K2 [] m' = K [] (m'(n' := r, n := ?s))" for m'
    unfolding K2_def by simp
  have E: "bt (Cap n (Cat (Chr (Is CHR ''|'')) (Cat (Chr (Is CHR ''@''))
                 (Cap n' (decimalRe j))))) ?s m K = bt (decimalRe j) r m K2"
    unfolding K2_def by simp
  note S = bt_decimal_total [of K2 j r m, OF K2]
  have R: "bt (decimalRe j) r m K2 = K [] (m(j := dropWhile (in_cls Digit) r, n' := r, n := ?s))"
    using assms(1)
  proof (cases rule: is_decimal_cases)
    case int
    have t: "takeWhile (in_cls Digit) r = r" "dropWhile (in_cls Digit) r = []"
      using int by (simp_all add: list_all_iff)
    have eq: "m(j := []) = m"
      using assms(3) by (rule fun_upd_idem)
    show ?thesis
      unfolding S t eq end_ using int(1) by simp
  next
    case (frac ip fp)
    have nd: "\<not> in_cls Digit CHR ''.''"
      by (simp add: in_cls.simps(3))
    have t: "takeWhile (in_cls Digit) r = ip" "dropWhile (in_cls Digit) r = CHR ''.'' # fp"
      using frac nd by (simp_all add: takeWhile_all dropWhile_all)
    have u: "takeWhile (in_cls Digit) fp = fp" "dropWhile (in_cls Digit) fp = []"
      using frac by (simp_all add: list_all_iff)
    show ?thesis
      unfolding S t using frac(2,4) by (simp add: u end_)
  qed
  obtain res where "K [] (m(j := dropWhile (in_cls Digit) r, n' := r, n := ?s)) = Some res"
    using tot by blast
  then show ?thesis
    using E R by (simp del: bt.simps add: bt.simps(5))
qed

lemma takeWhile_neq: "c \<notin> set a \<Longrightarrow> takeWhile (\<lambda>x. x \<noteq> c) (a @ c # b) = a"
  by (induction a) auto

lemma dropWhile_neq: "c \<notin> set a \<Longrightarrow> dropWhile (\<lambda>x. x \<noteq> c) (a @ c # b) = c # b"
  by (induction a) auto

lemma is_decimal_hd: "is_decimal v \<Longrightarrow> v \<noteq> [] \<and> in_cls Digit (hd v)"
  by (erule is_decimal_cases) (auto simp: neq_Nil_conv)

lemma match_here_wf:
  assumes "wf_origin origin" and "wf_name name" and "wf_sign sg" and "is_decimal v"
    and "ty = ''ms'' \<or> ty = ''g'' \<or> ty = ''c''" and "wf_rate rate"
  shows "match_here statsdRegexp (stat_line origin name sg v ty rate) =
         Some ((\<lambda>_. [])
           (1 := origin, 2 := name, 3 := sg, 5 := dropWhile (in_cls Digit) v, 4 := v, 6 := ty,
            9 := dropWhile (in_cls Digit) (rate_string rate), 8 := rate_string rate,
            7 := rate_suffix rate, 0 := stat_line origin name sg v ty rate))"
proof -
  define line where "line = stat_line origin name sg v ty rate"
  define r5 where "r5 = rate_suffix rate"
  define r4 where "r4 = ty @ r5"
  define r3 where "r3 = v @ CHR ''|'' # r4"
  define r2 where "r2 = sg @ r3"
  define r1 where "r1 = name @ CHR '':'' # r2"
  have line: "line = origin @ CHR ''.'' # r1"
    by (simp add: line_def r1_def r2_def r3_def r4_def r5_def stat_line_def rate_suffix_def)
  define K :: "string \<Rightarrow> caps \<Rightarrow> caps option" where
    "K = (\<lambda>s' m. Some (m(0 := take (length line - length s') line)))"
  have tot: "\<forall>s m. K s m \<noteq> None"
    by (simp add: K_def)
  have K_end: "K [] m = Some (m(0 := line))" for m
    by (simp add: K_def)
  define m6 :: caps where
    "m6 = (\<lambda>_. [])(1 := origin, 2 := name, 3 := sg, 5 := dropWhile (in_cls Digit) v,
                     4 := v, 6 := ty)"
  define m9 :: caps where
    "m9 = m6(9 := dropWhile (in_cls Digit) (rate_string rate), 8 := rate_string rate,
             7 := rate_suffix rate)"
  have o: "takeWhile (\<lambda>x. x \<noteq> CHR ''.'') (origin @ CHR ''.'' # r1) = origin"
      "dropWhile (\<lambda>x. x \<noteq> CHR ''.'') (origin @ CHR ''.'' # r1) = CHR ''.'' # r1"
    using assms(1) by (simp_all add: wf_origin_def takeWhile_neq dropWhile_neq)
  have n: "takeWhile (\<lambda>x. x \<noteq> CHR '':'') (name @ CHR '':'' # r2) = name"
      "dropWhile (\<lambda>x. x \<noteq> CHR '':'') (name @ CHR '':'' # r2) = CHR '':'' # r2"
    using assms(2) by (simp_all add: wf_name_def takeWhile_neq dropWhile_neq)
  have ne: "origin \<noteq> []" "name \<noteq> []"
    using assms(1,2) by (simp_all add: wf_origin_def wf_name_def)
  obtain y ys where v: "v = y # ys" and y: "in_cls Digit y"
    using is_decimal_hd [OF assms(4)] by (cases v) auto
  have hd3: "r3 = [] \<or> in_cls Digit (hd r3)"
    unfolding r3_def v using y by simp
  have m65: "m6 9 = []"
    by (simp add: m6_def)
  have last: "bt (Opt (Cap 7 (Cat (Chr (Is CHR ''|'')) (Cat (Chr (Is CHR ''@''))
                 (Cap 8 (decimalRe 9)))))) r5 m6 K = K [] m9"
  proof (cases rate)
    case None
    have eq: "m9 = m6"
      unfolding m9_def None rate_string_def rate_suffix_def by (rule ext) (simp add: m6_def)
    have "bt (Opt (Cap 7 (Cat (Chr (Is CHR ''|'')) (Cat (Chr (Is CHR ''@''))
                 (Cap 8 (decimalRe 9)))))) [] m6 K = K [] m6"
      by simp
    then show ?thesis
      unfolding eq r5_def None rate_suffix_def option.case .
  next
    case (Some r)
    then have "is_decimal r"
      using assms(6) by (simp add: wf_rate_def)
    then show ?thesis
      unfolding r5_def m9_def Some rate_suffix_def rate_string_def option.case
      using tot m65 by (rule bt_rate)
  qed
  have s1: "bt statsdRegexp line (\<lambda>_. []) K =
            bt (Cat (Cap 3 (Opt (Chr (OneOf ''+-''))))
               (Cat (Cap 4 (decimalRe 5))
               (Cat (Chr (Is CHR ''|''))
               (Cat (Cap 6 (Alt (Cat (Chr (Is CHR ''m'')) (Chr (Is CHR ''s'')))
                           (Alt (Chr (Is CHR ''g'')) (Chr (Is CHR ''c'')))))
                    (Opt (Cap 7 (Cat (Chr (Is CHR ''|''))
                                (Cat (Chr (Is CHR ''@''))
                                     (Cap 8 (decimalRe 9))))))))))
               r2 ((\<lambda>_. [])(1 := origin, 2 := name)) K"
  proof -
    have n': "takeWhile (\<lambda>x. x \<noteq> CHR '':'') r1 = name"
        "dropWhile (\<lambda>x. x \<noteq> CHR '':'') r1 = CHR '':'' # r2"
      using n by (simp_all only: r1_def)
    show ?thesis
      unfolding statsdRegexp_def line bt_field o list.case n'
      using ne by (simp only: if_False)
  qed
  have s2: "\<dots> = bt (Cat (Cap 4 (decimalRe 5))
               (Cat (Chr (Is CHR ''|''))
               (Cat (Cap 6 (Alt (Cat (Chr (Is CHR ''m'')) (Chr (Is CHR ''s'')))
                           (Alt (Chr (Is CHR ''g'')) (Chr (Is CHR ''c'')))))
                    (Opt (Cap 7 (Cat (Chr (Is CHR ''|''))
                                (Cat (Chr (Is CHR ''@''))
                                     (Cap 8 (decimalRe 9)))))))))
               r3 ((\<lambda>_. [])(1 := origin, 2 := name, 3 := sg)) K"
    unfolding r2_def by (rule bt_sign [OF assms(3) hd3])
  have s3: "\<dots> = bt (Cat (Cap 6 (Alt (Cat (Chr (Is CHR ''m'')) (Chr (Is CHR ''s'')))
                           (Alt (Chr (Is CHR ''g'')) (Chr (Is CHR ''c'')))))
                    (Opt (Cap 7 (Cat (Chr (Is CHR ''|''))
                                (Cat (Chr (Is CHR ''@''))
                                     (Cap 8 (decimalRe 9)))))))
               r4 ((\<lambda>_. [])(1 := origin, 2 := name, 3 := sg,
                     5 := dropWhile (in_cls Digit) v, 4 := v)) K"
    unfolding r3_def by (rule bt_value [OF assms(4)]) simp
  have s4: "\<dots> = bt (Opt (Cap 7 (Cat (Chr (Is CHR ''|''))
                                (Cat (Chr (Is CHR ''@''))
                                     (Cap 8 (decimalRe 9)))))) r5 m6 K"
    unfolding r4_def m6_def by (rule bt_type_wf [OF assms(5)])
  have "match_here statsdRegexp line = bt statsdRegexp line (\<lambda>_. []) K"
    unfolding match_here_def K_def ..
  also note s1
  also note s2
  also note s3
  also note s4
  also note last
  finally show ?thesis
    unfolding K_end m9_def m6_def line_def .
qed

section \<open>The submatches of a well-formed line\<close>

lemma search_match: "match_here r s = Some m \<Longrightarrow> search r s = Some m"
  by (cases s) simp_all

lemma numSubexp_statsdRegexp: "numSubexp statsdRegexp = 9"
  by (simp add: statsdRegexp_def decimalRe_def)

lemma FindStringSubmatch_wf:
  assumes "wf_origin origin" and "wf_name name" and "wf_sign sg" and "is_decimal v"
    and "ty = ''ms'' \<or> ty = ''g'' \<or> ty = ''c''" and "wf_rate rate"
  shows "FindStringSubmatch statsdRegexp (stat_line origin name sg v ty rate) =
         [stat_line origin name sg v ty rate, origin, name, sg, v,
          dropWhile (in_cls Digit) v, ty, rate_suffix rate, rate_string rate,
          dropWhile (in_cls Digit) (rate_string rate)]"
  unfolding FindStringSubmatch_def search_match [OF match_here_wf [OF assms]]
    numSubexp_statsdRegexp
  by (simp add: upt_rec)

lemma rate_string_wf:
  assumes "wf_rate rate"
  shows "(if rate_string rate = [] then fone F else ParseFloat F (rate_string rate)) =
         (case rate of None \<Rightarrow> fone F | Some r \<Rightarrow> ParseFloat F r)"
proof (cases rate)
  case None
  then show ?thesis by (simp add: rate_string_def)
next
  case (Some r)
  then have "r \<noteq> []"
    using assms is_decimal_hd [of r] by (simp add: wf_rate_def)
  then show ?thesis using Some by (simp add: rate_string_def)
qed

text \<open>What parseStat computes on a well-formed line.\<close>

lemma parseStat_parts:
  assumes "FindStringSubmatch statsdRegexp data =
             [whole, origin, name, sg, v, vfrac, ty, rsuffix, rstring, rfrac]"
  shows "parseStat F now l data =
    (let val = fdiv F (ParseFloat F v)
                 (if rstring = [] then fone F else ParseFloat F rstring)
     in if ty = ''ms''
     then (Inr \<lparr>Origin = origin, Timestamp = now, EventType = Envelope_ValueMetric,
                ValueMetric = \<lparr>Name = name, Value = val, Unit = ''ms''\<rparr>\<rparr>, l)
     else if ty = ''c''
     then (Inr \<lparr>Origin = origin, Timestamp = now, EventType = Envelope_ValueMetric,
                ValueMetric = \<lparr>Name = name,
                  Value = fst (counterValue F l origin name val sg),
                  Unit = ''counter''\<rparr>\<rparr>,
           snd (counterValue F l origin name val sg))
     else (Inr \<lparr>Origin = origin, Timestamp = now, EventType = Envelope_ValueMetric,
                ValueMetric = \<lparr>Name = name,
                  Value = fst (gaugeValue F l origin name val sg),
                  Unit = ''gauge''\<rparr>\<rparr>,
           snd (gaugeValue F l origin name val sg)))"
  unfolding parseStat_def assms
  by (simp add: Let_def split: prod.splits)

lemma parseStat_wf:
  assumes "wf_origin origin" and "wf_name name" and "wf_sign sg" and "is_decimal v"
    and "ty = ''ms'' \<or> ty = ''g'' \<or> ty = ''c''" and "wf_rate rate"
  shows "parseStat F now l (stat_line origin name sg v ty rate) =
    (if ty = ''ms''
     then (Inr \<lparr>Origin = origin, Timestamp = now, EventType = Envelope_ValueMetric,
                ValueMetric = \<lparr>Name = name, Value = corrected F v rate, Unit = ''ms''\<rparr>\<rparr>, l)
     else if ty = ''c''
     then (Inr \<lparr>Origin = origin, Timestamp = now, EventType = Envelope_ValueMetric,
                ValueMetric = \<lparr>Name = name,
                  Value = fst (counterValue F l origin name (corrected F v rate) sg),
                  Unit = ''counter''\<rparr>\<rparr>,
           snd (counterValue F l origin name (corrected F v rate) sg))
     else (Inr \<lparr>Origin = origin, Timestamp = now, EventType = Envelope_ValueMetric,
                ValueMetric = \<lparr>Name = name,
                  Value = fst (gaugeValue F l origin name (corrected F v rate) sg),
                  Unit = ''gauge''\<rparr>\<rparr>,
           snd (gaugeValue F l origin name (corrected F v rate) sg)))"
  unfolding parseStat_parts [OF FindStringSubmatch_wf [OF assms]]
    rate_string_wf [OF assms(6)] corrected_def Let_def ..

section \<open>Lines without a match\<close>

lemma search_None: "search r s = None \<longleftrightarrow> (\<forall>t. suffix t s \<longrightarrow> match_here r t = None)"
proof (induction s)
  case Nil
  then show ?case by simp
next
  case (Cons x xs)
  then show ?case
    by (auto simp: suffix_Cons split: option.splits)
qed

lemma statsdRegexp_tail:
  "statsdRegexp =
     Cat (Cap 1 (Plus (Not CHR ''.'')))
    (Cat (Chr (Is CHR ''.''))
    (Cat (Cap 2 (Plus (Not CHR '':'')))
    (Cat (Chr (Is CHR '':'')) tailRe)))"
  by (simp add: statsdRegexp_def tailRe_def)

lemma bt_statsdRegexp:
  "bt statsdRegexp s m k =
     (case dropWhile (\<lambda>x. x \<noteq> CHR ''.'') s of
        [] \<Rightarrow> None
      | _ # r1 \<Rightarrow>
          if takeWhile (\<lambda>x. x \<noteq> CHR ''.'') s = [] then None
          else (case dropWhile (\<lambda>x. x \<noteq> CHR '':'') r1 of
                  [] \<Rightarrow> None
                | _ # r2 \<Rightarrow>
                    if takeWhile (\<lambda>x. x \<noteq> CHR '':'') r1 = [] then None
                    else bt tailRe r2
                           (m(1 := takeWhile (\<lambda>x. x \<noteq> CHR ''.'') s,
                              2 := takeWhile (\<lambda>x. x \<noteq> CHR '':'') r1)) k))"
  unfolding statsdRegexp_tail bt_field ..

text \<open>Without a colon there is no match.\<close>

lemma no_colon_dropWhile:
  assumes "CHR '':'' \<notin> set s" and "dropWhile P s = x # t"
  shows "dropWhile (\<lambda>x. x \<noteq> CHR '':'') t = []"
proof -
  have "set t \<subseteq> set s"
    using set_dropWhileD [of _ P s] assms(2) by auto
  then show ?thesis using assms(1) by auto
qed

lemma bt_no_colon:
  assumes "CHR '':'' \<notin> set s"
  shows "bt statsdRegexp s m k = None"
proof (cases "dropWhile (\<lambda>x. x \<noteq> CHR ''.'') s")
  case Nil
  show ?thesis unfolding bt_statsdRegexp Nil by simp
next
  case (Cons d r1)
  have e: "dropWhile (\<lambda>x. x \<noteq> CHR '':'') r1 = []"
    using assms Cons by (rule no_colon_dropWhile)
  show ?thesis unfolding bt_statsdRegexp Cons list.case e by simp
qed

text \<open>After the sign and the value the type must follow.\<close>

lemma bt_tail_bad_type:
  assumes "wf_sign sg" and "is_decimal v" and "m 5 = []"
    and "take 2 rest \<noteq> ''ms''" and "take 1 rest \<noteq> ''g''" and "take 1 rest \<noteq> ''c''"
  shows "bt tailRe (sg @ v @ CHR ''|'' # rest) m k = None"
proof -
  obtain y ys where v: "v = y # ys" and y: "in_cls Digit y"
    using is_decimal_hd [OF assms(2)] by (cases v) auto
  have hd: "v @ CHR ''|'' # rest = [] \<or> in_cls Digit (hd (v @ CHR ''|'' # rest))"
    unfolding v using y by simp
  have m: "(m(3 := sg)) 5 = []"
    using assms(3) by simp
  show ?thesis
    unfolding tailRe_def bt_sign [OF assms(1) hd]
      bt_value [of v "m(3 := sg)" 5, OF assms(2) m] bt_type
    using assms(4-6) by simp
qed

text \<open>
  A line whose only colon after a dot is followed by a sign, a value, a bar and something
  that is no type has no match at any offset.
\<close>

lemma bt_line_bad_type:
  assumes a: "CHR ''.'' \<notin> set a" and n: "CHR '':'' \<notin> set n"
    and T: "\<And>m. m 5 = [] \<Longrightarrow> bt tailRe T m k = None"
  shows "bt statsdRegexp (a @ CHR ''.'' # n @ CHR '':'' # T) (\<lambda>_. []) k = None"
proof -
  have 1: "takeWhile (\<lambda>x. x \<noteq> CHR ''.'') (a @ CHR ''.'' # n @ CHR '':'' # T) = a"
      "dropWhile (\<lambda>x. x \<noteq> CHR ''.'') (a @ CHR ''.'' # n @ CHR '':'' # T) =
         CHR ''.'' # n @ CHR '':'' # T"
    using a by (simp_all add: takeWhile_neq dropWhile_neq)
  have 2: "takeWhile (\<lambda>x. x \<noteq> CHR '':'') (n @ CHR '':'' # T) = n"
      "dropWhile (\<lambda>x. x \<noteq> CHR '':'') (n @ CHR '':'' # T) = CHR '':'' # T"
    using n by (simp_all add: takeWhile_neq dropWhile_neq)
  have 3: "bt tailRe T ((\<lambda>_. [])(1 := a, 2 := n)) k = None"
    by (rule T) simp
  show ?thesis
    unfolding bt_statsdRegexp 1 list.case 2 3 by simp
qed

lemma bt_colon_bad_type:
  assumes x: "CHR '':'' \<notin> set x" and T0: "CHR '':'' \<notin> set T"
    and T: "\<And>m. m 5 = [] \<Longrightarrow> bt tailRe T m k = None"
  shows "bt statsdRegexp (x @ CHR '':'' # T) (\<lambda>_. []) k = None"
proof (cases "CHR ''.'' \<in> set x")
  case True
  then obtain a n where s: "x = a @ CHR ''.'' # n" and a: "CHR ''.'' \<notin> set a"
    by (meson split_list_first)
  have n: "CHR '':'' \<notin> set n"
    using x s by simp
  show ?thesis
    using bt_line_bad_type [OF a n T] s by simp
next
  case False
  have d: "dropWhile (\<lambda>x. x \<noteq> CHR ''.'') (x @ CHR '':'' # T) = dropWhile (\<lambda>x. x \<noteq> CHR ''.'') T"
    using False by (induction x) auto
  show ?thesis
  proof (cases "dropWhile (\<lambda>x. x \<noteq> CHR ''.'') T")
    case Nil
    show ?thesis unfolding bt_statsdRegexp d Nil by simp
  next
    case (Cons c r1)
    have e: "dropWhile (\<lambda>x. x \<noteq> CHR '':'') r1 = []"
      using T0 Cons by (rule no_colon_dropWhile)
    show ?thesis unfolding bt_statsdRegexp d Cons list.case e by simp
  qed
qed

lemma is_decimal_no_colon:
  assumes "is_decimal v"
  shows "CHR '':'' \<notin> set v"
proof -
  have c: "in_cls Digit x \<Longrightarrow> x \<noteq> CHR '':''" for x
    by (auto simp: in_cls.simps(3))
  have d: "list_all (in_cls Digit) xs \<Longrightarrow> CHR '':'' \<notin> set xs" for xs
    using c by (induction xs) auto
  from assms show ?thesis
  proof (cases rule: is_decimal_cases)
    case int
    then show ?thesis using d by simp
  next
    case (frac ip fp)
    then show ?thesis using d [of ip] d [of fp] by simp
  qed
qed

lemma search_bad_type:
  assumes "wf_origin origin" and "wf_name name" and "wf_sign sg" and "is_decimal v"
    and "CHR '':'' \<notin> set rest"
    and "\<not> prefix ''ms'' rest" and "\<not> prefix ''g'' rest" and "\<not> prefix ''c'' rest"
  shows "search statsdRegexp (origin @ ''.'' @ name @ '':'' @ sg @ v @ ''|'' @ rest) = None"
proof -
  define T where "T = sg @ v @ CHR ''|'' # rest"
  have ty: "take 2 rest \<noteq> ''ms''" "take 1 rest \<noteq> ''g''" "take 1 rest \<noteq> ''c''"
    using assms(6-8) take_is_prefix [of 2 rest] take_is_prefix [of 1 rest] by auto
  have T: "bt tailRe T m k = None" if "m 5 = []" for m and k :: "string \<Rightarrow> caps \<Rightarrow> caps option"
    unfolding T_def using assms(3,4) that ty by (rule bt_tail_bad_type)
  have T0: "CHR '':'' \<notin> set T"
    using assms(3,5) is_decimal_no_colon [OF assms(4)] by (auto simp: T_def wf_sign_def)
  have o: "CHR ''.'' \<notin> set origin" and n: "CHR '':'' \<notin> set name"
    using assms(1,2) by (simp_all add: wf_origin_def wf_name_def)
  have line: "origin @ ''.'' @ name @ '':'' @ sg @ v @ ''|'' @ rest =
              origin @ (CHR ''.'' # name) @ CHR '':'' # T"
    by (simp add: T_def)
  have "match_here statsdRegexp t = None"
    if "suffix t (origin @ (CHR ''.'' # name) @ CHR '':'' # T)" for t
  proof -
    have A: "suffix t ((CHR ''.'' # name) @ CHR '':'' # T) \<or>
             (\<exists>o'. suffix o' origin \<and> t = o' @ (CHR ''.'' # name) @ CHR '':'' # T)"
      using that suffix_append [of t origin "(CHR ''.'' # name) @ CHR '':'' # T"] by auto
    have B: "suffix t T \<or> t = CHR '':'' # T \<or>
             (\<exists>x. suffix x (CHR ''.'' # name) \<and> t = x @ CHR '':'' # T)"
      if "suffix t ((CHR ''.'' # name) @ CHR '':'' # T)"
      using that suffix_append [of t "CHR ''.'' # name" "CHR '':'' # T"]
        suffix_Cons [of t "CHR '':''" T] by auto
    from A show ?thesis
    proof
      assume "\<exists>o'. suffix o' origin \<and> t = o' @ (CHR ''.'' # name) @ CHR '':'' # T"
      then obtain o' where 1: "suffix o' origin" "t = o' @ CHR ''.'' # name @ CHR '':'' # T"
        by auto
      have "set o' \<subseteq> set origin"
        using 1(1) by (rule set_mono_suffix)
      then have "CHR ''.'' \<notin> set o'"
        using o by auto
      then show ?thesis
        unfolding match_here_def 1(2) using n T by (rule bt_line_bad_type)
    next
      assume "suffix t ((CHR ''.'' # name) @ CHR '':'' # T)"
      from B [OF this] show ?thesis
      proof (elim disjE)
        assume 4: "suffix t T"
        have "set t \<subseteq> set T"
          using 4 by (rule set_mono_suffix)
        then have "CHR '':'' \<notin> set t"
          using T0 by auto
        then show ?thesis
          unfolding match_here_def by (rule bt_no_colon)
      next
        assume 3: "t = CHR '':'' # T"
        have "CHR '':'' \<notin> set ([] :: string)" by simp
        then have "bt statsdRegexp ([] @ CHR '':'' # T) (\<lambda>_. []) k = None"
          for k :: "string \<Rightarrow> caps \<Rightarrow> caps option"
          using T0 T by (rule bt_colon_bad_type)
        then show ?thesis
          unfolding match_here_def 3 by simp
      next
        assume "\<exists>x. suffix x (CHR ''.'' # name) \<and> t = x @ CHR '':'' # T"
        then obtain x where 2: "suffix x (CHR ''.'' # name)" "t = x @ CHR '':'' # T"
          by auto
        have "set x \<subseteq> set (CHR ''.'' # name)"
          using 2(1) by (rule set_mono_suffix)
        then have "CHR '':'' \<notin> set x"
          using n by auto
        then show ?thesis
          unfolding match_here_def 2(2) using T0 T by (rule bt_colon_bad_type)
      qed
    qed
  qed
  then show ?thesis
    unfolding line search_None by simp
qed

section \<open>Texts that contain a well-formed line\<close>

lemma well_formedI:
  assumes "wf_origin origin" and "wf_name name" and "wf_sign sg" and "is_decimal v"
    and "ty = ''ms'' \<or> ty = ''g'' \<or> ty = ''c''" and "wf_rate rate"
  shows "well_formed (stat_line origin name sg v ty rate)"
proof -
  have "wf_origin origin \<and> wf_name name \<and> wf_sign sg \<and> is_decimal v \<and>
        (ty = ''ms'' \<or> ty = ''g'' \<or> ty = ''c'') \<and> wf_rate rate \<and>
        stat_line origin name sg v ty rate = stat_line origin name sg v ty rate"
    using assms by simp
  then show ?thesis
    unfolding well_formed_def by - ((rule exI)+, assumption)
qed

lemma is_decimal_int:
  assumes "ip \<noteq> []" and "list_all (in_cls Digit) ip"
  shows "is_decimal ip"
proof -
  have t: "takeWhile digit ip = ip" "dropWhile digit ip = []"
    using assms(2) by (simp_all add: list_all_iff digit_def)
  show ?thesis
    unfolding is_decimal_def t using assms(1) by simp
qed

lemma is_decimal_frac:
  assumes "ip \<noteq> []" and "list_all (in_cls Digit) ip"
    and "fp \<noteq> []" and "list_all (in_cls Digit) fp"
  shows "is_decimal (ip @ CHR ''.'' # fp)"
proof -
  have nd: "\<not> digit CHR ''.''"
    by (simp add: digit_def in_cls.simps(3))
  have ip: "list_all digit ip" and fp: "list_all digit fp"
    using assms(2,4) by (simp_all add: list_all_iff digit_def)
  have t: "takeWhile digit (ip @ CHR ''.'' # fp) = ip"
      "dropWhile digit (ip @ CHR ''.'' # fp) = CHR ''.'' # fp"
    using ip nd by (simp_all add: takeWhile_all dropWhile_all)
  show ?thesis
    unfolding is_decimal_def t using assms(1,3) fp by simp
qed

lemma takeWhile_all_in: "list_all P (takeWhile P s)"
  by (induction s) simp_all

text \<open>A match of the value and the bar: what the text must be.\<close>

lemma bt_value_success:
  assumes "bt (Cat (Cap n (decimalRe j)) (Cat (Chr (Is CHR ''|'')) R)) s m k \<noteq> None"
  shows "\<exists>v rest m'. s = v @ CHR ''|'' # rest \<and> is_decimal v \<and> bt R rest m' k \<noteq> None"
proof -
  define K where
    "K = (\<lambda>s' m'. bt (Cat (Chr (Is CHR ''|'')) R) s' (m'(n := take (length s - length s') s)) k)"
  have fail: "\<forall>x xs m'. in_cls Digit x \<or> x = CHR ''.'' \<longrightarrow> K (x # xs) m' = None"
  proof (intro allI impI)
    fix x xs m'
    assume "in_cls Digit x \<or> x = CHR ''.''"
    then have "x \<noteq> CHR ''|''"
      using digit_chars [of x] by auto
    then show "K (x # xs) m' = None"
      unfolding K_def by simp
  qed
  have Kbar: "K t m' \<noteq> None \<Longrightarrow> \<exists>rest m''. t = CHR ''|'' # rest \<and> bt R rest m'' k \<noteq> None" for t m'
    unfolding K_def by (cases t) (auto split: if_splits)
  have E: "bt (Cat (Cap n (decimalRe j)) (Cat (Chr (Is CHR ''|'')) R)) s m k =
           bt (decimalRe j) s m K"
    unfolding K_def by (rule bt_Cat_Cap)
  note S = bt_decimal_strict [of K j s m, OF fail]
  define ip where "ip = takeWhile (in_cls Digit) s"
  define r1 where "r1 = dropWhile (in_cls Digit) s"
  have s: "s = ip @ r1"
    unfolding ip_def r1_def by simp
  have ipd: "list_all (in_cls Digit) ip"
    unfolding ip_def by (rule takeWhile_all_in)
  have ne: "ip \<noteq> []"
    using assms unfolding E S ip_def by (auto split: if_splits)
  have S': "bt (decimalRe j) s m K =
         (case r1 of [] \<Rightarrow> K [] m
          | x # r2 \<Rightarrow>
              if x = CHR ''.''
              then (if takeWhile (in_cls Digit) r2 = [] then None
                    else K (dropWhile (in_cls Digit) r2)
                           (m(j := x # takeWhile (in_cls Digit) r2)))
              else K (x # r2) m)"
    unfolding S r1_def using ne unfolding ip_def by simp
  show ?thesis
  proof (cases r1)
    case Nil
    have "K [] m \<noteq> None"
      using assms unfolding E S' Nil by simp
    then show ?thesis using Kbar [of "[]" m] by simp
  next
    case (Cons x r2)
    show ?thesis
    proof (cases "x = CHR ''.''")
      case False
      have "K (x # r2) m \<noteq> None"
        using assms False unfolding E S' Cons by simp
      from Kbar [OF this] obtain rest m'' where
        r: "x # r2 = CHR ''|'' # rest" "bt R rest m'' k \<noteq> None" by auto
      have "s = ip @ CHR ''|'' # rest"
        using s Cons r(1) by simp
      moreover have "is_decimal ip"
        using ne ipd by (rule is_decimal_int)
      ultimately show ?thesis using r(2) by auto
    next
      case True
      define fp where "fp = takeWhile (in_cls Digit) r2"
      define r3 where "r3 = dropWhile (in_cls Digit) r2"
      have r2: "r2 = fp @ r3"
        unfolding fp_def r3_def by simp
      have fpd: "list_all (in_cls Digit) fp"
        unfolding fp_def by (rule takeWhile_all_in)
      have fne: "fp \<noteq> []"
        using assms True unfolding E S' Cons fp_def by (auto split: if_splits)
      have "K r3 (m(j := x # fp)) \<noteq> None"
        using assms True fne unfolding E S' Cons fp_def r3_def by simp
      from Kbar [OF this] obtain rest m'' where
        r: "r3 = CHR ''|'' # rest" "bt R rest m'' k \<noteq> None" by auto
      have a: "s = (ip @ CHR ''.'' # fp) @ CHR ''|'' # rest"
        using s Cons True r2 r(1) by simp
      have b: "is_decimal (ip @ CHR ''.'' # fp)"
        using ne ipd fne fpd by (rule is_decimal_frac)
      from a b r(2) have "s = (ip @ CHR ''.'' # fp) @ CHR ''|'' # rest \<and>
          is_decimal (ip @ CHR ''.'' # fp) \<and> bt R rest m'' k \<noteq> None"
        by (intro conjI)
      then show ?thesis
        by - ((rule exI)+, assumption)
    qed
  qed
qed

text \<open>A match of the part after the colon: a sign, a value, a bar and a type.\<close>

lemma bt_tail_success:
  assumes "bt tailRe s m k \<noteq> None"
  shows "\<exists>sg v ty rest. s = sg @ v @ CHR ''|'' # ty @ rest \<and> wf_sign sg \<and> is_decimal v \<and>
           (ty = ''ms'' \<or> ty = ''g'' \<or> ty = ''c'')"
proof -
  let ?T = "Cat (Cap 6 (Alt (Cat (Chr (Is CHR ''m'')) (Chr (Is CHR ''s'')))
                      (Alt (Chr (Is CHR ''g'')) (Chr (Is CHR ''c'')))))
                (Opt (Cap 7 (Cat (Chr (Is CHR ''|''))
                            (Cat (Chr (Is CHR ''@'')) (Cap 8 (decimalRe 9))))))"
  let ?V = "Cat (Cap 4 (decimalRe 5)) (Cat (Chr (Is CHR ''|'')) ?T)"
  have "\<exists>sg t m'. s = sg @ t \<and> wf_sign sg \<and> bt ?V t m' k \<noteq> None"
  proof (cases s)
    case Nil
    then show ?thesis
      using assms unfolding tailRe_def bt_opt_chr by (simp add: bt_decimal_start del: bt.simps)
  next
    case (Cons x xs)
    show ?thesis
    proof (cases "in_cls (OneOf ''+-'') x")
      case False
      then have "bt ?V (x # xs) (m(3 := [])) k \<noteq> None"
        using assms unfolding tailRe_def bt_opt_chr Cons by (simp del: bt.simps)
      then have "s = [] @ (x # xs) \<and> wf_sign [] \<and> bt ?V (x # xs) (m(3 := [])) k \<noteq> None"
        using Cons by (simp add: wf_sign_def del: bt.simps)
      then show ?thesis
        by - ((rule exI)+, assumption)
    next
      case True
      then have nd: "\<not> in_cls Digit x"
        by (auto simp: in_cls.simps(3))
      have "bt ?V (x # xs) (m(3 := [])) k = None"
        using nd by (rule bt_decimal_start)
      then have "bt ?V xs (m(3 := [x])) k \<noteq> None"
        using assms True unfolding tailRe_def bt_opt_chr Cons
        by (simp del: bt.simps split: option.splits)
      moreover have "wf_sign [x]"
        using True by (auto simp: wf_sign_def)
      ultimately have "s = [x] @ xs \<and> wf_sign [x] \<and> bt ?V xs (m(3 := [x])) k \<noteq> None"
        using Cons by (simp del: bt.simps)
      then show ?thesis
        by - ((rule exI)+, assumption)
    qed
  qed
  then obtain sg t m' where 1: "s = sg @ t" "wf_sign sg" "bt ?V t m' k \<noteq> None"
    by (elim exE conjE)
  from bt_value_success [OF 1(3)] obtain v rest m'' where
    2: "t = v @ CHR ''|'' # rest" "is_decimal v" "bt ?T rest m'' k \<noteq> None"
    by (elim exE conjE)
  have "\<exists>ty r. rest = ty @ r \<and> (ty = ''ms'' \<or> ty = ''g'' \<or> ty = ''c'')"
  proof -
    have c: "take 2 rest = ''ms'' \<or> take 1 rest = ''g'' \<or> take 1 rest = ''c''"
      using 2(3) unfolding bt_type by (auto split: if_splits)
    have "rest = take 2 rest @ drop 2 rest" "rest = take 1 rest @ drop 1 rest"
      by simp_all
    then show ?thesis using c by metis
  qed
  then obtain ty r where 3: "rest = ty @ r" "ty = ''ms'' \<or> ty = ''g'' \<or> ty = ''c''"
    by (elim exE conjE)
  have "s = sg @ v @ CHR ''|'' # ty @ r \<and> wf_sign sg \<and> is_decimal v \<and>
           (ty = ''ms'' \<or> ty = ''g'' \<or> ty = ''c'')"
    using 1(1,2) 2(1,2) 3 by simp
  then show ?thesis
    by - ((rule exI)+, assumption)
qed

text \<open>A match at the start of a text: the text begins with a well-formed line.\<close>

lemma match_here_success:
  assumes "match_here statsdRegexp t \<noteq> None"
  shows "\<exists>mid post. t = mid @ post \<and> well_formed mid"
proof -
  define k :: "string \<Rightarrow> caps \<Rightarrow> caps option" where
    "k = (\<lambda>s' m. Some (m(0 := take (length t - length s') t)))"
  have a: "bt statsdRegexp t (\<lambda>_. []) k \<noteq> None"
    using assms unfolding match_here_def k_def .
  define origin where "origin = takeWhile (\<lambda>x. x \<noteq> CHR ''.'') t"
  define d1 where "d1 = dropWhile (\<lambda>x. x \<noteq> CHR ''.'') t"
  have t: "t = origin @ d1"
    unfolding origin_def d1_def by simp
  have o: "CHR ''.'' \<notin> set origin"
    unfolding origin_def by (auto dest: set_takeWhileD)
  obtain c r1 where d1: "d1 = c # r1"
    using a unfolding bt_statsdRegexp d1_def [symmetric] by (cases d1) simp_all
  have c: "c = CHR ''.''"
    using hd_dropWhile [of "\<lambda>x. x \<noteq> CHR ''.''" t] d1 unfolding d1_def by simp
  define name where "name = takeWhile (\<lambda>x. x \<noteq> CHR '':'') r1"
  define d2 where "d2 = dropWhile (\<lambda>x. x \<noteq> CHR '':'') r1"
  have r1: "r1 = name @ d2"
    unfolding name_def d2_def by simp
  have n: "CHR '':'' \<notin> set name"
    unfolding name_def by (auto dest: set_takeWhileD)
  have b: "origin \<noteq> [] \<and>
        (case d2 of [] \<Rightarrow> None
         | _ # r2 \<Rightarrow> if name = [] then None
             else bt tailRe r2 ((\<lambda>_. [])(1 := origin, 2 := name)) k) \<noteq> None"
    using a unfolding bt_statsdRegexp d1_def [symmetric] d1 list.case
      origin_def [symmetric] d2_def [symmetric] name_def [symmetric]
    by (simp split: if_splits)
  obtain c2 r2 where d2: "d2 = c2 # r2"
    using b by (cases d2) simp_all
  have c2: "c2 = CHR '':''"
    using hd_dropWhile [of "\<lambda>x. x \<noteq> CHR '':''" r1] d2 unfolding d2_def by simp
  have ne: "origin \<noteq> []" "name \<noteq> []"
      and tl: "bt tailRe r2 ((\<lambda>_. [])(1 := origin, 2 := name)) k \<noteq> None"
    using b unfolding d2 by (simp_all split: if_splits)
  from bt_tail_success [OF tl] obtain sg v ty rest where
    4: "r2 = sg @ v @ CHR ''|'' # ty @ rest" "wf_sign sg" "is_decimal v"
       "ty = ''ms'' \<or> ty = ''g'' \<or> ty = ''c''"
    by (elim exE conjE)
  have "t = stat_line origin name sg v ty None @ rest"
    using t d1 c r1 d2 c2 4(1) by (simp add: stat_line_def)
  moreover have "well_formed (stat_line origin name sg v ty None)"
    using o n ne 4(2-4) by (intro well_formedI) (simp_all add: wf_origin_def wf_name_def wf_rate_def)
  ultimately have "t = stat_line origin name sg v ty None @ rest \<and>
      well_formed (stat_line origin name sg v ty None)"
    by (rule conjI)
  then show ?thesis
    by - ((rule exI)+, assumption)
qed

text \<open>A text that begins with a well-formed line has a match at its start.\<close>

lemma bt_Opt_total:
  "\<forall>s m. K s m \<noteq> None \<Longrightarrow> bt (Opt r) s m K \<noteq> None"
  by (simp split: option.splits)

lemma match_here_prefix:
  assumes "well_formed mid"
  shows "match_here statsdRegexp (mid @ post) \<noteq> None"
proof -
  obtain origin name sg v ty rate where
    w: "wf_origin origin" "wf_name name" "wf_sign sg" "is_decimal v"
       "ty = ''ms'' \<or> ty = ''g'' \<or> ty = ''c''"
    and mid: "mid = stat_line origin name sg v ty rate"
    using assms unfolding well_formed_def by (elim exE conjE)
  define rest where "rest = rate_suffix rate @ post"
  define r2 where "r2 = sg @ v @ CHR ''|'' # ty @ rest"
  define r1 where "r1 = name @ CHR '':'' # r2"
  define k :: "string \<Rightarrow> caps \<Rightarrow> caps option" where
    "k = (\<lambda>s' m. Some (m(0 := take (length (mid @ post) - length s') (mid @ post))))"
  have tot: "\<forall>s m. k s m \<noteq> None"
    by (simp add: k_def)
  have line: "mid @ post = origin @ CHR ''.'' # r1"
    by (simp add: mid r1_def r2_def rest_def stat_line_def rate_suffix_def)
  have o: "takeWhile (\<lambda>x. x \<noteq> CHR ''.'') (origin @ CHR ''.'' # r1) = origin"
      "dropWhile (\<lambda>x. x \<noteq> CHR ''.'') (origin @ CHR ''.'' # r1) = CHR ''.'' # r1"
    using w(1) by (simp_all add: wf_origin_def takeWhile_neq dropWhile_neq)
  have n: "takeWhile (\<lambda>x. x \<noteq> CHR '':'') r1 = name"
      "dropWhile (\<lambda>x. x \<noteq> CHR '':'') r1 = CHR '':'' # r2"
    unfolding r1_def using w(2) by (simp_all add: wf_name_def takeWhile_neq dropWhile_neq)
  have ne: "origin \<noteq> []" "name \<noteq> []"
    using w(1,2) by (simp_all add: wf_origin_def wf_name_def)
  obtain y ys where v: "v = y # ys" and y: "in_cls Digit y"
    using is_decimal_hd [OF w(4)] by (cases v) auto
  have hd: "v @ CHR ''|'' # ty @ rest = [] \<or> in_cls Digit (hd (v @ CHR ''|'' # ty @ rest))"
    unfolding v using y by simp
  define m2 :: caps where "m2 = (\<lambda>_. [])(1 := origin, 2 := name)"
  have m: "(m2(3 := sg)) 5 = []"
    by (simp add: m2_def)
  have "bt statsdRegexp (mid @ post) (\<lambda>_. []) k = bt tailRe r2 m2 k"
    unfolding line bt_statsdRegexp o list.case n m2_def using ne by (simp only: if_False)
  also have "\<dots> = bt (Opt (Cap 7 (Cat (Chr (Is CHR ''|''))
                            (Cat (Chr (Is CHR ''@'')) (Cap 8 (decimalRe 9))))))
                 rest (m2(3 := sg, 5 := dropWhile (in_cls Digit) v, 4 := v, 6 := ty)) k"
    unfolding tailRe_def r2_def bt_sign [OF w(3) hd]
      bt_value [of v "m2(3 := sg)" 5, OF w(4) m] bt_type_wf [OF w(5)] ..
  also have "\<dots> \<noteq> None"
    using tot by (rule bt_Opt_total)
  finally show ?thesis
    unfolding match_here_def k_def .
qed

text \<open>The search finds a match exactly in the texts that contain a well-formed line.\<close>

lemma search_contains_stat:
  "search statsdRegexp data \<noteq> None \<longleftrightarrow> contains_stat data"
proof
  assume "search statsdRegexp data \<noteq> None"
  then obtain t where t: "suffix t data" "match_here statsdRegexp t \<noteq> None"
    unfolding search_None by auto
  from match_here_success [OF t(2)] obtain mid post where
    m: "t = mid @ post" "well_formed mid" by (elim exE conjE)
  obtain pre where "data = pre @ t"
    using t(1) by (auto simp: suffix_def)
  then have "data = pre @ mid @ post \<and> well_formed mid"
    using m by simp
  then show "contains_stat data"
    unfolding contains_stat_def by - ((rule exI)+, assumption)
next
  assume "contains_stat data"
  then obtain pre mid post where d: "data = pre @ mid @ post" "well_formed mid"
    unfolding contains_stat_def by (elim exE conjE)
  have "suffix (mid @ post) data"
    unfolding d(1) by (rule suffixI) simp
  moreover have "match_here statsdRegexp (mid @ post) \<noteq> None"
    using d(2) by (rule match_here_prefix)
  ultimately show "search statsdRegexp data \<noteq> None"
    unfolding search_None by auto
qed

lemma well_formed_hd:
  assumes "well_formed s"
  shows "s \<noteq> [] \<and> hd s \<noteq> CHR ''.''"
proof -
  obtain origin name sg v ty rate where
    w: "wf_origin origin" and s: "s = stat_line origin name sg v ty rate"
    using assms unfolding well_formed_def by (elim exE conjE)
  obtain x xs where o: "origin = x # xs"
    using w by (cases origin) (simp_all add: wf_origin_def)
  then have "x \<noteq> CHR ''.''"
    using w by (auto simp: wf_origin_def)
  then show ?thesis
    unfolding s o stat_line_def by simp
qed

section \<open>The read loop and the sequence of lines\<close>

lemma envelopes_simps:
  "envelopes [] = []" "envelopes (Inr e # rs) = e # envelopes rs"
  "envelopes (Inl err # rs) = envelopes rs" "envelopes (xs @ ys) = envelopes xs @ envelopes ys"
  by (simp_all add: envelopes_def)

lemma failures_simps:
  "failures [] = []" "failures (Inr e # rs) = failures rs"
  "failures (Inl err # rs) = err # failures rs" "failures (xs @ ys) = failures xs @ failures ys"
  by (simp_all add: failures_def)

lemma length_decode_seq: "length (decode_seq F Now n l lines) = length lines"
  by (induction lines arbitrary: n l) (auto split: prod.splits sum.splits)

lemma process_line_cases:
  "parseStat F (Now (ticks st)) (listener st) line = (Inr e, l') \<Longrightarrow>
     process_line F Now st line =
       st\<lparr>listener := l', outputChan := outputChan st @ [e], ticks := Suc (ticks st)\<rparr>"
  "parseStat F (Now (ticks st)) (listener st) line = (Inl (Errorf msg), l') \<Longrightarrow>
     process_line F Now st line =
       st\<lparr>listener := l',
          warnings := warnings st @
            [''Error parsing stat line '' @ [CHR 0x22] @ line @ [CHR 0x22] @ '': '' @ msg]\<rparr>"
  by (simp_all add: process_line_def)

lemma scan_loop_decode:
  "outputChan (scan_loop F Now lines st) =
     outputChan st @ envelopes (decode_seq F Now (ticks st) (listener st) lines) \<and>
   length (warnings (scan_loop F Now lines st)) =
     length (warnings st) + length (failures (decode_seq F Now (ticks st) (listener st) lines))"
proof (induction lines arbitrary: st)
  case Nil
  show ?case by (simp add: envelopes_simps failures_simps)
next
  case (Cons line rest)
  obtain r l' where p: "parseStat F (Now (ticks st)) (listener st) line = (r, l')"
    by (cases "parseStat F (Now (ticks st)) (listener st) line")
  show ?case
  proof (cases r)
    case (Inl err)
    obtain msg where "err = Errorf msg" by (cases err)
    with p Inl show ?thesis
      using Cons [of "process_line F Now st line"]
      by (simp add: process_line_cases envelopes_simps failures_simps)
  next
    case (Inr e)
    with p show ?thesis
      using Cons [of "process_line F Now st line"]
      by (simp add: process_line_cases envelopes_simps failures_simps)
  qed
qed

lemma decode_seq_append:
  "decode_seq F Now (ticks st) (listener st) (xs @ ys) =
     decode_seq F Now (ticks st) (listener st) xs @
     decode_seq F Now (ticks (scan_loop F Now xs st)) (listener (scan_loop F Now xs st)) ys"
proof (induction xs arbitrary: st)
  case Nil
  show ?case by simp
next
  case (Cons line rest)
  obtain r l' where p: "parseStat F (Now (ticks st)) (listener st) line = (r, l')"
    by (cases "parseStat F (Now (ticks st)) (listener st) line")
  show ?case
  proof (cases r)
    case (Inl err)
    obtain msg where "err = Errorf msg" by (cases err)
    with p Inl show ?thesis
      using Cons [of "process_line F Now st line"]
      by (simp add: process_line_cases)
  next
    case (Inr e)
    with p show ?thesis
      using Cons [of "process_line F Now st line"]
      by (simp add: process_line_cases)
  qed
qed

lemma Run_loop_decode:
  "outputChan (Run_loop F Now (map ReadOk ds) st) =
     outputChan st @ envelopes (decode_seq F Now (ticks st) (listener st) (lines_of ds)) \<and>
   length (warnings (Run_loop F Now (map ReadOk ds) st)) =
     length (warnings st) +
     length (failures (decode_seq F Now (ticks st) (listener st) (lines_of ds)))"
proof (induction ds arbitrary: st)
  case Nil
  show ?case by (simp add: lines_of_def envelopes_simps failures_simps)
next
  case (Cons d ds)
  let ?ls = "ScanLines (take maxUDPsize d)"
  have l: "lines_of (d # ds) = ?ls @ lines_of ds"
    by (simp add: lines_of_def)
  show ?case
    using Cons [of "scan_loop F Now ?ls st"] scan_loop_decode [of F Now ?ls st]
    by (simp add: l decode_seq_append envelopes_simps failures_simps)
qed

lemma ScanLines_no_newline:
  assumes "CHR 0x0A \<notin> set t"
  shows "ScanLines t = (if t = [] then [] else [dropCR t])"
proof -
  have d: "dropWhile (\<lambda>x. x \<noteq> CHR 0x0A) t = []"
    using assms by auto
  show ?thesis
    by (subst ScanLines.simps) (simp only: d list.case)
qed

lemma ScanLines_line:
  assumes "CHR 0x0A \<notin> set l"
  shows "ScanLines (l @ CHR 0x0A # rest) = dropCR l # ScanLines rest"
proof -
  have d: "dropWhile (\<lambda>x. x \<noteq> CHR 0x0A) (l @ CHR 0x0A # rest) = CHR 0x0A # rest"
      "takeWhile (\<lambda>x. x \<noteq> CHR 0x0A) (l @ CHR 0x0A # rest) = l"
    using assms by (simp_all add: takeWhile_neq dropWhile_neq)
  have ne: "l @ CHR 0x0A # rest \<noteq> []" by simp
  show ?thesis
    by (subst ScanLines.simps) (simp only: d list.case ne if_False)
qed

lemma ScanLines_datagram:
  assumes "\<forall>l\<in>set ls. CHR 0x0A \<notin> set l" and "CHR 0x0A \<notin> set t"
  shows "ScanLines (datagram ls t) = text_lines ls t"
  using assms(1)
proof (induction ls)
  case Nil
  show ?case
    using ScanLines_no_newline [OF assms(2)]
    by (simp add: datagram_def text_lines_def dropCR_def)
next
  case (Cons l ls)
  then have l: "CHR 0x0A \<notin> set l" and IH: "ScanLines (datagram ls t) = text_lines ls t"
    by simp_all
  have "datagram (l # ls) t = l @ CHR 0x0A # datagram ls t"
    by (simp add: datagram_def)
  then show ?case
    using ScanLines_line [OF l, of "datagram ls t"] IH
    by (simp add: text_lines_def dropCR_def)
qed

lemma lines_of_datagrams:
  assumes "\<forall>(ls, t) \<in> set dgs.
             (\<forall>l\<in>set ls. CHR 0x0A \<notin> set l) \<and> CHR 0x0A \<notin> set t \<and>
             length (datagram ls t) \<le> 65535"
  shows "lines_of (map (\<lambda>(ls, t). datagram ls t) dgs) =
         concat (map (\<lambda>(ls, t). text_lines ls t) dgs)"
  using assms
proof (induction dgs)
  case Nil
  show ?case by (simp add: lines_of_def)
next
  case (Cons d dgs)
  obtain ls t where d: "d = (ls, t)" by (cases d)
  have 1: "\<forall>l\<in>set ls. CHR 0x0A \<notin> set l" "CHR 0x0A \<notin> set t"
      "length (datagram ls t) \<le> 65535"
    using Cons.prems d by simp_all
  have "take maxUDPsize (datagram ls t) = datagram ls t"
    using 1(3) by (simp add: maxUDPsize_def)
  then have "ScanLines (take maxUDPsize (datagram ls t)) = text_lines ls t"
    using ScanLines_datagram [OF 1(1,2)] by simp
  moreover have "lines_of (map (\<lambda>(ls, t). datagram ls t) dgs) =
         concat (map (\<lambda>(ls, t). text_lines ls t) dgs)"
    using Cons by simp
  ultimately show ?case
    unfolding d by (simp add: lines_of_def)
qed

lemmas wf_defs = wf_origin_def wf_name_def wf_sign_def wf_rate_def

section \<open>Evaluating the listener on a concrete line\<close>

lemmas regexp_defs =
  FindStringSubmatch_def statsdRegexp_def decimalRe_def match_here_def in_cls.simps(3)

lemmas exact_defs =
  exact_ops_def is_decimal_def decimal_value_def digit_def digits_value_def xsub_def

lemmas listener_defs =
  parseStat_def counterValue_def gaugeValue_def index_def NewStatsdListener_def Let_def

section \<open>Counters\<close>

text \<open>
  C1. For every well-formed counter line (type \<^verbatim>\<open>c\<close>), with \<open>v0\<close> the value stored in
  the map of counters under origin, dot, name (the zero value when the key is missing),
  parseStat gives an envelope of unit \<^verbatim>\<open>counter\<close> whose value is \<open>v0\<close> minus the
  value divided by the sample rate when the sign is \<^verbatim>\<open>-\<close>, and \<open>v0\<close> plus it otherwise
  (sign \<^verbatim>\<open>+\<close> or none), and stores that value in the map under the same key.
\<close>

theorem parseStat_counter:
  assumes "wf_origin origin" and "wf_name name" and "wf_sign sg" and "is_decimal v"
    and "wf_rate rate"
  shows "parseStat F now l (stat_line origin name sg v ''c'' rate) =
    (let key = origin @ ''.'' @ name;
         v0 = (case counterValues l key of None \<Rightarrow> fzero F | Some x \<Rightarrow> x);
         newVal = (if sg = ''-'' then fsub F v0 (corrected F v rate)
                   else fadd F v0 (corrected F v rate))
     in (Inr \<lparr>Origin = origin, Timestamp = now, EventType = Envelope_ValueMetric,
              ValueMetric = \<lparr>Name = name, Value = newVal, Unit = ''counter''\<rparr>\<rparr>,
         l\<lparr>counterValues := (counterValues l)(key \<mapsto> newVal)\<rparr>))"
  using assms by (simp add: parseStat_wf counterValue_def index_def Let_def)

theorem parseStat_counter_witness:
  "wf_origin ''app'' \<and> wf_name ''http.requests'' \<and> wf_sign ''-'' \<and> is_decimal ''3'' \<and>
   wf_rate (Some ''0.5'') \<and>
   parseStat exact_ops 0
     \<lparr>host = ''127.0.0.1:8125'', gaugeValues = Map.empty,
      counterValues = [''app.http.requests'' \<mapsto> Fin 10]\<rparr>
     ''app.http.requests:-3|c|@0.5'' =
     (Inr \<lparr>Origin = ''app'', Timestamp = 0, EventType = Envelope_ValueMetric,
           ValueMetric = \<lparr>Name = ''http.requests'', Value = Fin 4, Unit = ''counter''\<rparr>\<rparr>,
      \<lparr>host = ''127.0.0.1:8125'', gaugeValues = Map.empty,
       counterValues = [''app.http.requests'' \<mapsto> Fin 4]\<rparr>)"
proof -
  have h: "wf_origin ''app''" "wf_name ''http.requests''" "wf_sign ''-''" "is_decimal ''3''"
    "wf_rate (Some ''0.5'')"
    by (simp_all add: wf_defs is_decimal_def digit_def in_cls.simps(3))
  show ?thesis
    using h parseStat_counter [OF h, of exact_ops 0
      "\<lparr>host = ''127.0.0.1:8125'', gaugeValues = Map.empty,
        counterValues = [''app.http.requests'' \<mapsto> Fin 10]\<rparr>"]
    by (simp add: stat_line_def corrected_def exact_defs in_cls.simps(3) Let_def)
qed

section \<open>Gauges\<close>

text \<open>
  C2. For every well-formed gauge line (type \<^verbatim>\<open>g\<close>), with \<open>v0\<close> the value stored in the
  map of gauges under origin, dot, name (the zero value when the key is missing),
  parseStat gives an envelope of unit \<^verbatim>\<open>gauge\<close> whose value is the value divided by the
  sample rate when there is no sign, whatever was stored, \<open>v0\<close> plus it when the sign is
  \<^verbatim>\<open>+\<close> and \<open>v0\<close> minus it when the sign is \<^verbatim>\<open>-\<close>, and stores that value in the map
  under the same key.
\<close>

theorem parseStat_gauge:
  assumes "wf_origin origin" and "wf_name name" and "wf_sign sg" and "is_decimal v"
    and "wf_rate rate"
  shows "parseStat F now l (stat_line origin name sg v ''g'' rate) =
    (let key = origin @ ''.'' @ name;
         v0 = (case gaugeValues l key of None \<Rightarrow> fzero F | Some x \<Rightarrow> x);
         newVal = (if sg = ''+'' then fadd F v0 (corrected F v rate)
                   else if sg = ''-'' then fsub F v0 (corrected F v rate)
                   else corrected F v rate)
     in (Inr \<lparr>Origin = origin, Timestamp = now, EventType = Envelope_ValueMetric,
              ValueMetric = \<lparr>Name = name, Value = newVal, Unit = ''gauge''\<rparr>\<rparr>,
         l\<lparr>gaugeValues := (gaugeValues l)(key \<mapsto> newVal)\<rparr>))"
  using assms by (simp add: parseStat_wf gaugeValue_def index_def Let_def)

theorem parseStat_gauge_witness:
  "wf_origin ''app'' \<and> wf_name ''memory.free'' \<and> wf_sign [] \<and> is_decimal ''512.5'' \<and>
   wf_rate None \<and>
   parseStat exact_ops 0
     \<lparr>host = ''127.0.0.1:8125'', gaugeValues = [''app.memory.free'' \<mapsto> Fin 7],
      counterValues = Map.empty\<rparr>
     ''app.memory.free:512.5|g'' =
     (Inr \<lparr>Origin = ''app'', Timestamp = 0, EventType = Envelope_ValueMetric,
           ValueMetric = \<lparr>Name = ''memory.free'', Value = Fin (1025 / 2), Unit = ''gauge''\<rparr>\<rparr>,
      \<lparr>host = ''127.0.0.1:8125'', gaugeValues = [''app.memory.free'' \<mapsto> Fin (1025 / 2)],
       counterValues = Map.empty\<rparr>)"
proof -
  have h: "wf_origin ''app''" "wf_name ''memory.free''" "wf_sign []" "is_decimal ''512.5''"
    "wf_rate None"
    by (simp_all add: wf_defs is_decimal_def digit_def in_cls.simps(3))
  show ?thesis
    using h parseStat_gauge [OF h, of exact_ops 0
      "\<lparr>host = ''127.0.0.1:8125'', gaugeValues = [''app.memory.free'' \<mapsto> Fin 7],
        counterValues = Map.empty\<rparr>"]
    by (simp add: stat_line_def corrected_def exact_defs in_cls.simps(3) Let_def)
qed

section \<open>Timers\<close>

text \<open>
  C7. For every well-formed line of type \<^verbatim>\<open>ms\<close> parseStat gives an envelope of unit
  \<^verbatim>\<open>ms\<close> whose value is the value divided by the sample rate, and the listener, with
  its map of counters and its map of gauges, is returned as it was.
\<close>

theorem parseStat_ms:
  assumes "wf_origin origin" and "wf_name name" and "wf_sign sg" and "is_decimal v"
    and "wf_rate rate"
  shows "parseStat F now l (stat_line origin name sg v ''ms'' rate) =
     (Inr \<lparr>Origin = origin, Timestamp = now, EventType = Envelope_ValueMetric,
           ValueMetric = \<lparr>Name = name, Value = corrected F v rate, Unit = ''ms''\<rparr>\<rparr>, l)"
  using assms by (simp add: parseStat_wf)

theorem parseStat_ms_witness:
  "wf_origin ''app'' \<and> wf_name ''http.latency'' \<and> wf_sign [] \<and> is_decimal ''23.5'' \<and>
   wf_rate (Some ''0.5'') \<and>
   parseStat exact_ops 0 (NewStatsdListener ''127.0.0.1:8125'') ''app.http.latency:23.5|ms|@0.5'' =
     (Inr \<lparr>Origin = ''app'', Timestamp = 0, EventType = Envelope_ValueMetric,
           ValueMetric = \<lparr>Name = ''http.latency'', Value = Fin 47, Unit = ''ms''\<rparr>\<rparr>,
      NewStatsdListener ''127.0.0.1:8125'')"
proof -
  have h: "wf_origin ''app''" "wf_name ''http.latency''" "wf_sign []" "is_decimal ''23.5''"
    "wf_rate (Some ''0.5'')"
    by (simp_all add: wf_defs is_decimal_def digit_def in_cls.simps(3))
  show ?thesis
    using h parseStat_ms [OF h, of exact_ops 0 "NewStatsdListener ''127.0.0.1:8125''"]
    by (simp add: stat_line_def corrected_def exact_defs in_cls.simps(3) Let_def)
qed

section \<open>The sample rate\<close>

text \<open>
  C6. For every well-formed line without a sample rate, the line with \<^verbatim>\<open>|@1\<close> appended
  is decoded to the same envelope and the same listener, provided \<^verbatim>\<open>ParseFloat\<close> reads
  \<^verbatim>\<open>1\<close> as the constant 1 that stands for a missing rate.
\<close>

theorem parseStat_rate_one:
  assumes "wf_origin origin" and "wf_name name" and "wf_sign sg" and "is_decimal v"
    and "ty = ''ms'' \<or> ty = ''g'' \<or> ty = ''c''"
    and "ParseFloat F ''1'' = fone F"
  shows "parseStat F now l (stat_line origin name sg v ty None @ ''|@1'') =
         parseStat F now l (stat_line origin name sg v ty None)"
proof -
  have l: "stat_line origin name sg v ty None @ ''|@1'' = stat_line origin name sg v ty (Some ''1'')"
    by (simp add: stat_line_def)
  have r: "wf_rate (Some ''1'')" "wf_rate None"
    by (simp_all add: wf_rate_def is_decimal_def digit_def in_cls.simps(3))
  have c: "corrected F v (Some ''1'') = corrected F v None"
    using assms(6) by (simp add: corrected_def)
  show ?thesis
    unfolding l parseStat_wf [OF assms(1-5) r(1)] parseStat_wf [OF assms(1-5) r(2)] c ..
qed

theorem parseStat_rate_one_witness:
  "wf_origin ''a'' \<and> wf_name ''b'' \<and> wf_sign [] \<and> is_decimal ''3'' \<and>
   ParseFloat exact_ops ''1'' = fone exact_ops \<and>
   parseStat exact_ops 0 (NewStatsdListener ''127.0.0.1:8125'') ''a.b:3|g|@1'' =
   parseStat exact_ops 0 (NewStatsdListener ''127.0.0.1:8125'') ''a.b:3|g''"
proof -
  have h: "wf_origin ''a''" "wf_name ''b''" "wf_sign []" "is_decimal ''3''"
    "''g'' = ''ms'' \<or> ''g'' = ''g'' \<or> ''g'' = ''c''"
    "ParseFloat exact_ops ''1'' = fone exact_ops"
    by (simp_all add: wf_defs exact_defs in_cls.simps(3))
  show ?thesis
    using h parseStat_rate_one [OF h, of 0 "NewStatsdListener ''127.0.0.1:8125''"]
    by (simp add: stat_line_def)
qed

text \<open>
  C9, as stated, fails: a line whose sample rate is \<^verbatim>\<open>0\<close> is not rejected. statsdRegexp
  lets any decimal through and parseStat divides by it; with exact arithmetic the
  counter of \<^verbatim>\<open>a.b:1|c|@0\<close> becomes plus infinity.
\<close>

theorem parseStat_rate_zero:
  "parseStat exact_ops 0 (NewStatsdListener ''127.0.0.1:8125'') ''a.b:1|c|@0'' =
     (Inr \<lparr>Origin = ''a'', Timestamp = 0, EventType = Envelope_ValueMetric,
           ValueMetric = \<lparr>Name = ''b'', Value = PInf, Unit = ''counter''\<rparr>\<rparr>,
      \<lparr>host = ''127.0.0.1:8125'', gaugeValues = Map.empty,
       counterValues = [''a.b'' \<mapsto> PInf]\<rparr>)"
  by (simp add: listener_defs regexp_defs exact_defs upt_rec)

text \<open>
  C9, amended. For every well-formed line with a sample rate, whatever decimal the rate
  is (zero and values above one included), parseStat gives an envelope and no error, and
  the value it uses is the value of the line divided by the rate as \<^verbatim>\<open>ParseFloat\<close>
  reads it: that quotient for type \<^verbatim>\<open>ms\<close>, the stored counter plus or minus it for
  type \<^verbatim>\<open>c\<close>, and it or the stored gauge plus or minus it for type \<^verbatim>\<open>g\<close>. No range
  is checked.
\<close>

theorem parseStat_any_rate:
  assumes "wf_origin origin" and "wf_name name" and "wf_sign sg" and "is_decimal v"
    and "ty = ''ms'' \<or> ty = ''g'' \<or> ty = ''c''" and "is_decimal r"
  shows "parseStat F now l (stat_line origin name sg v ty (Some r)) =
    (let val = fdiv F (ParseFloat F v) (ParseFloat F r);
         key = origin @ ''.'' @ name;
         c0 = (case counterValues l key of None \<Rightarrow> fzero F | Some x \<Rightarrow> x);
         g0 = (case gaugeValues l key of None \<Rightarrow> fzero F | Some x \<Rightarrow> x);
         cnew = (if sg = ''-'' then fsub F c0 val else fadd F c0 val);
         gnew = (if sg = ''+'' then fadd F g0 val
                 else if sg = ''-'' then fsub F g0 val else val)
     in if ty = ''ms''
        then (Inr \<lparr>Origin = origin, Timestamp = now, EventType = Envelope_ValueMetric,
                   ValueMetric = \<lparr>Name = name, Value = val, Unit = ''ms''\<rparr>\<rparr>, l)
        else if ty = ''c''
        then (Inr \<lparr>Origin = origin, Timestamp = now, EventType = Envelope_ValueMetric,
                   ValueMetric = \<lparr>Name = name, Value = cnew, Unit = ''counter''\<rparr>\<rparr>,
              l\<lparr>counterValues := (counterValues l)(key \<mapsto> cnew)\<rparr>)
        else (Inr \<lparr>Origin = origin, Timestamp = now, EventType = Envelope_ValueMetric,
                   ValueMetric = \<lparr>Name = name, Value = gnew, Unit = ''gauge''\<rparr>\<rparr>,
              l\<lparr>gaugeValues := (gaugeValues l)(key \<mapsto> gnew)\<rparr>))"
proof -
  have r: "wf_rate (Some r)"
    using assms(6) by (simp add: wf_rate_def)
  show ?thesis
    unfolding parseStat_wf [OF assms(1-5) r]
    by (simp add: corrected_def counterValue_def gaugeValue_def index_def Let_def)
qed

theorem parseStat_any_rate_witness:
  "wf_origin ''a'' \<and> wf_name ''b'' \<and> wf_sign [] \<and> is_decimal ''3'' \<and> is_decimal ''2'' \<and>
   parseStat exact_ops 0 (NewStatsdListener ''127.0.0.1:8125'') ''a.b:3|c|@2'' =
     (Inr \<lparr>Origin = ''a'', Timestamp = 0, EventType = Envelope_ValueMetric,
           ValueMetric = \<lparr>Name = ''b'', Value = Fin (3 / 2), Unit = ''counter''\<rparr>\<rparr>,
      \<lparr>host = ''127.0.0.1:8125'', gaugeValues = Map.empty,
       counterValues = [''a.b'' \<mapsto> Fin (3 / 2)]\<rparr>)"
proof -
  have h: "wf_origin ''a''" "wf_name ''b''" "wf_sign []" "is_decimal ''3''"
    "''c'' = ''ms'' \<or> ''c'' = ''g'' \<or> ''c'' = ''c''" "is_decimal ''2''"
    by (simp_all add: wf_defs is_decimal_def digit_def in_cls.simps(3))
  show ?thesis
    using h parseStat_any_rate [OF h, of exact_ops 0 "NewStatsdListener ''127.0.0.1:8125''"]
    by (simp add: stat_line_def exact_defs in_cls.simps(3) NewStatsdListener_def Let_def)
qed

section \<open>The type token\<close>

text \<open>
  C3, as stated, fails: the line \<^verbatim>\<open>a.b:1|x\<close>, well-formed except for its type
  \<^verbatim>\<open>x\<close>, is not decoded as a gauge; statsdRegexp finds no match in it and parseStat
  returns the error.
\<close>

theorem parseStat_type_x:
  "parseStat exact_ops 0 (NewStatsdListener ''127.0.0.1:8125'') ''a.b:1|x'' =
     (Inl (Errorf ''Input line 'a.b:1|x' was not a valid statsd line.''),
      NewStatsdListener ''127.0.0.1:8125'')"
  by (simp add: parseStat_def regexp_defs)

text \<open>
  C3, amended. For every line that is well-formed up to the bar after the value, when the
  text after that bar does not begin with \<^verbatim>\<open>ms\<close>, \<^verbatim>\<open>g\<close> or \<^verbatim>\<open>c\<close> and holds no
  colon, parseStat returns the error carrying the line and leaves the listener as it
  was.
\<close>

theorem parseStat_unknown_type:
  assumes "wf_origin origin" and "wf_name name" and "wf_sign sg" and "is_decimal v"
    and "CHR '':'' \<notin> set rest"
    and "\<not> prefix ''ms'' rest" and "\<not> prefix ''g'' rest" and "\<not> prefix ''c'' rest"
  shows "parseStat F now l (origin @ ''.'' @ name @ '':'' @ sg @ v @ ''|'' @ rest) =
     (Inl (Errorf (''Input line '' @ [CHR 0x27]
                     @ (origin @ ''.'' @ name @ '':'' @ sg @ v @ ''|'' @ rest)
                     @ [CHR 0x27] @ '' was not a valid statsd line.'')), l)"
  unfolding parseStat_def FindStringSubmatch_def search_bad_type [OF assms]
  by simp

theorem parseStat_unknown_type_witness:
  "wf_origin ''a'' \<and> wf_name ''b'' \<and> wf_sign ''+'' \<and> is_decimal ''2'' \<and>
   CHR '':'' \<notin> set ''h|@0.5'' \<and> \<not> prefix ''ms'' ''h|@0.5'' \<and>
   \<not> prefix ''g'' ''h|@0.5'' \<and> \<not> prefix ''c'' ''h|@0.5'' \<and>
   parseStat exact_ops 0 (NewStatsdListener ''127.0.0.1:8125'') ''a.b:+2|h|@0.5'' =
     (Inl (Errorf ''Input line 'a.b:+2|h|@0.5' was not a valid statsd line.''),
      NewStatsdListener ''127.0.0.1:8125'')"
proof -
  have h: "wf_origin ''a''" "wf_name ''b''" "wf_sign ''+''" "is_decimal ''2''"
    "CHR '':'' \<notin> set ''h|@0.5''" "\<not> prefix ''ms'' ''h|@0.5''"
    "\<not> prefix ''g'' ''h|@0.5''" "\<not> prefix ''c'' ''h|@0.5''"
    by (simp_all add: wf_defs is_decimal_def digit_def in_cls.simps(3))
  show ?thesis
    using h parseStat_unknown_type [OF h, of exact_ops 0 "NewStatsdListener ''127.0.0.1:8125''"]
    by simp
qed

section \<open>A line without a match\<close>

text \<open>
  C4, as stated, fails: the line \<^verbatim>\<open>.a.b:1|c\<close> is no well-formed line (it begins with
  the dot, so it has no origin), yet the search is not anchored, finds \<^verbatim>\<open>a.b:1|c\<close>
  in it, and parseStat gives a counter envelope and writes the map of counters.
\<close>

theorem parseStat_leading_dot:
  "\<not> well_formed ''.a.b:1|c'' \<and>
   parseStat exact_ops 0 (NewStatsdListener ''127.0.0.1:8125'') ''.a.b:1|c'' =
     (Inr \<lparr>Origin = ''a'', Timestamp = 0, EventType = Envelope_ValueMetric,
           ValueMetric = \<lparr>Name = ''b'', Value = Fin 1, Unit = ''counter''\<rparr>\<rparr>,
      \<lparr>host = ''127.0.0.1:8125'', gaugeValues = Map.empty,
       counterValues = [''a.b'' \<mapsto> Fin 1]\<rparr>)"
proof -
  have "\<not> well_formed ''.a.b:1|c''"
    using well_formed_hd [of "''.a.b:1|c''"] by auto
  moreover have "parseStat exact_ops 0 (NewStatsdListener ''127.0.0.1:8125'') ''.a.b:1|c'' =
     (Inr \<lparr>Origin = ''a'', Timestamp = 0, EventType = Envelope_ValueMetric,
           ValueMetric = \<lparr>Name = ''b'', Value = Fin 1, Unit = ''counter''\<rparr>\<rparr>,
      \<lparr>host = ''127.0.0.1:8125'', gaugeValues = Map.empty,
       counterValues = [''a.b'' \<mapsto> Fin 1]\<rparr>)"
    by (simp add: listener_defs regexp_defs exact_defs upt_rec)
  ultimately show ?thesis by (rule conjI)
qed

text \<open>
  C4, amended. For every line no part of which is a well-formed line (such as
  \<^verbatim>\<open>not.a.valid.line\<close>), parseStat returns the error whose message carries the text
  of the line, and the listener, with its map of counters and its map of gauges, is
  returned as it was.
\<close>

theorem parseStat_no_stat:
  assumes "\<not> contains_stat data"
  shows "parseStat F now l data =
     (Inl (Errorf (''Input line '' @ [CHR 0x27] @ data @ [CHR 0x27]
                    @ '' was not a valid statsd line.'')), l)"
proof -
  have "search statsdRegexp data = None"
    using assms search_contains_stat [of data] by simp
  then show ?thesis
    by (simp add: parseStat_def FindStringSubmatch_def)
qed

theorem parseStat_no_stat_witness:
  "\<not> contains_stat ''not.a.valid.line'' \<and>
   parseStat exact_ops 0 (NewStatsdListener ''127.0.0.1:8125'') ''not.a.valid.line'' =
     (Inl (Errorf ''Input line 'not.a.valid.line' was not a valid statsd line.''),
      NewStatsdListener ''127.0.0.1:8125'')"
proof -
  have "search statsdRegexp ''not.a.valid.line'' = None"
    by (simp add: statsdRegexp_def decimalRe_def match_here_def in_cls.simps(3))
  then have h: "\<not> contains_stat ''not.a.valid.line''"
    using search_contains_stat [of "''not.a.valid.line''"] by simp
  show ?thesis
    using h parseStat_no_stat [OF h, of exact_ops 0 "NewStatsdListener ''127.0.0.1:8125''"]
    by simp
qed

section \<open>Text after the match\<close>


section \<open>The order of the envelopes\<close>

text \<open>
  C8. For every sequence of datagrams read without error, each at most 65535 bytes and
  given by its newline-terminated lines and the text after its last newline, the
  envelopes the loop sends on the output channel are, after those sent before, exactly
  the envelopes of the lines that decode, in the order of the lines, the lines of an
  earlier datagram before those of a later one. Every line gives one result; a line that
  fails gives a warning and no envelope, and the lines after it are decoded all the same.
\<close>

theorem Run_loop_order:
  assumes "\<forall>(ls, t) \<in> set dgs.
             (\<forall>l\<in>set ls. CHR 0x0A \<notin> set l) \<and> CHR 0x0A \<notin> set t \<and>
             length (datagram ls t) \<le> 65535"
  shows
    "outputChan (Run_loop F Now (map (\<lambda>(ls, t). ReadOk (datagram ls t)) dgs) st) =
       outputChan st @
       envelopes (decode_seq F Now (ticks st) (listener st)
                    (concat (map (\<lambda>(ls, t). text_lines ls t) dgs))) \<and>
     length (decode_seq F Now (ticks st) (listener st)
               (concat (map (\<lambda>(ls, t). text_lines ls t) dgs))) =
       length (concat (map (\<lambda>(ls, t). text_lines ls t) dgs)) \<and>
     length (warnings (Run_loop F Now (map (\<lambda>(ls, t). ReadOk (datagram ls t)) dgs) st)) =
       length (warnings st) +
       length (failures (decode_seq F Now (ticks st) (listener st)
                           (concat (map (\<lambda>(ls, t). text_lines ls t) dgs))))"
proof -
  have m: "map (\<lambda>(ls, t). ReadOk (datagram ls t)) dgs =
           map ReadOk (map (\<lambda>(ls, t). datagram ls t) dgs)"
    by (simp add: case_prod_unfold)
  show ?thesis
    unfolding m
    using Run_loop_decode [of F Now "map (\<lambda>(ls, t). datagram ls t) dgs" st]
    unfolding lines_of_datagrams [OF assms]
    by (simp add: length_decode_seq)
qed

theorem Run_loop_order_witness:
  "CHR 0x0A \<notin> set ''a.b:1|c'' \<and> CHR 0x0A \<notin> set ''junk'' \<and> CHR 0x0A \<notin> set ''a.b:2|c'' \<and>
   CHR 0x0A \<notin> set ''c.d:5|g'' \<and>
   length (datagram [''a.b:1|c'', ''junk''] ''a.b:2|c'') \<le> 65535 \<and>
   length (datagram [''c.d:5|g''] []) \<le> 65535 \<and>
   outputChan
     (Run_loop exact_ops of_nat
        [ReadOk (''a.b:1|c'' @ [CHR 0x0A] @ ''junk'' @ [CHR 0x0A] @ ''a.b:2|c''),
         ReadOk (''c.d:5|g'' @ [CHR 0x0A])]
        \<lparr>listener = NewStatsdListener ''127.0.0.1:8125'', outputChan = [], warnings = [],
         ticks = 0, returned = False\<rparr>) =
     [\<lparr>Origin = ''a'', Timestamp = 0, EventType = Envelope_ValueMetric,
       ValueMetric = \<lparr>Name = ''b'', Value = Fin 1, Unit = ''counter''\<rparr>\<rparr>,
      \<lparr>Origin = ''a'', Timestamp = 1, EventType = Envelope_ValueMetric,
       ValueMetric = \<lparr>Name = ''b'', Value = Fin 3, Unit = ''counter''\<rparr>\<rparr>,
      \<lparr>Origin = ''c'', Timestamp = 2, EventType = Envelope_ValueMetric,
       ValueMetric = \<lparr>Name = ''d'', Value = Fin 5, Unit = ''gauge''\<rparr>\<rparr>]"
proof -
  have h: "\<forall>(ls, t) \<in> set [([''a.b:1|c'', ''junk''], ''a.b:2|c''), ([''c.d:5|g''], [])].
      (\<forall>l\<in>set ls. CHR 0x0A \<notin> set l) \<and> CHR 0x0A \<notin> set t \<and>
      length (datagram ls t) \<le> 65535"
    by (simp add: datagram_def)
  show ?thesis
    using Run_loop_order [OF h, of exact_ops of_nat
        "\<lparr>listener = NewStatsdListener ''127.0.0.1:8125'', outputChan = [], warnings = [],
         ticks = 0, returned = False\<rparr>"]
    by (simp add: datagram_def text_lines_def envelopes_simps listener_defs regexp_defs
          exact_defs upt_rec)
qed

section \<open>The relay listener when a read fails\<close>

lemma relay_frames:
  "relay marshal (map Frame fs @ es) w =
     relay marshal es (w\<lparr>outputQueue := outputQueue w @ fs\<rparr>)"
  by (induction fs arbitrary: w) simp_all

text \<open>
  C5. After a successful dial, when the listener has relayed the frames \<open>fs\<close> and a read
  then fails though the stop signal was not triggered, \<open>Start\<close> returns no error; the
  output queue holds, after what it held and the frames, exactly one more frame, the
  diagnostic log record with source \<^verbatim>\<open>LGR\<close>, the severity of an error and the fixed
  text; the stop signal and the queue are as they were (not triggered, not closed).
\<close>

theorem Start_read_failure:
  "Start marshal None (map Frame fs @ ReadFailed # es) w =
     (Some None,
      w\<lparr>outputQueue := outputQueue w @ fs @ [marshal diagnostic], connOpen := False\<rparr>) \<and>
   stopSignal (snd (Start marshal None (map Frame fs @ ReadFailed # es) w)) = stopSignal w \<and>
   queueClosed (snd (Start marshal None (map Frame fs @ ReadFailed # es) w)) = queueClosed w \<and>
   SourceName diagnostic = ''LGR'' \<and> MessageType diagnostic = ERR \<and>
   Message diagnostic = ''proxy: error connecting to a loggregator server''"
  by (simp add: Start_def relay_frames diagnostic_def)

end
